theory Spec2Isabelle
  imports Main "HOL-Library.Word" "HOL-Library.Monad_Syntax" "HOL-Library.Char_ord"
    "HOL-Library.List_Lexorder" "HOL-Library.Multiset" "HOL-Library.Sublist"
begin

unbundle bit_operations_syntax

section \<open>Memory model\<close>

text \<open>
  Pointers are 64-bit addresses and \<open>NULL\<close> is address 0.  An \<open>element_t\<close> is
  identified with the address of its embedded \<open>struct list_head\<close> (\<open>list_entry\<close>
  and \<open>&e->list\<close> are the identity on addresses).  The heap holds the \<open>next\<close> and
  \<open>prev\<close> fields of every link node, the \<open>value\<close> field of every element (the
  address of a separately allocated string block, or \<open>NULL\<close>), the contents of the
  string blocks (without the terminating NUL) and the set of blocks that are
  currently allocated.  Reading and writing a field is total: the heap holds a value
  for every address, also for blocks that are not allocated.  What the operations do
  is proved for rings that are linked as the data model says, and, where blocks are
  allocated or released, for queues that own their blocks.
\<close>

type_synonym addr = "64 word"

abbreviation NULL :: addr where
  "NULL \<equiv> 0"

record heap =
  nxt :: "addr \<Rightarrow> addr"
  prv :: "addr \<Rightarrow> addr"
  val :: "addr \<Rightarrow> addr"
  str :: "addr \<Rightarrow> string"
  live :: "addr set"

definition text_of :: "heap \<Rightarrow> addr \<Rightarrow> string" where
  "text_of h e = str h (val h e)"

subsection \<open>The C library\<close>

text \<open>
  \<open>malloc\<close> either fails (returns \<open>NULL\<close>) or returns a block; which of the two
  happens, and which address is returned, is decided by the environment and is a
  parameter of the model.  \<open>free NULL\<close> does nothing.
\<close>

definition malloc :: "addr option \<Rightarrow> heap \<Rightarrow> heap \<times> addr" where
  "malloc r h = (case r of None \<Rightarrow> (h, NULL)
                 | Some a \<Rightarrow> (h\<lparr>live := insert a (live h)\<rparr>, a))"

definition free :: "addr \<Rightarrow> heap \<Rightarrow> heap" where
  "free p h = (if p = NULL then h else h\<lparr>live := live h - {p}\<rparr>)"

datatype fault = NullDeref | OutOfBounds

text \<open>
  \<open>strdup s\<close> reads the string at \<open>s\<close>; with \<open>s = NULL\<close> (\<open>None\<close>) that read is a
  null dereference.  Otherwise it allocates a block and copies the string into it, or
  returns \<open>NULL\<close> when the allocation fails.
\<close>

definition strdup :: "string option \<Rightarrow> addr option \<Rightarrow> heap \<Rightarrow> fault + heap \<times> addr" where
  "strdup s r h =
     (case s of None \<Rightarrow> Inl NullDeref
      | Some cs \<Rightarrow>
          (case malloc r h of (h1, p) \<Rightarrow>
             if p = NULL then Inr (h1, NULL)
             else Inr (h1\<lparr>str := (str h1)(p := cs)\<rparr>, p)))"

text \<open>
  \<open>strcmp\<close> compares two strings byte by byte as unsigned characters; only the sign
  of its result is specified, and the model returns \<open>-1\<close>, \<open>0\<close> or \<open>1\<close>.
\<close>

fun strcmp :: "string \<Rightarrow> string \<Rightarrow> int" where
  "strcmp [] [] = 0"
| "strcmp [] (y # ys) = - 1"
| "strcmp (x # xs) [] = 1"
| "strcmp (x # xs) (y # ys) =
     (if x = y then strcmp xs ys
      else if (of_char x :: nat) < of_char y then - 1 else 1)"

text \<open>
  A character buffer is the list of its bytes; its length is its capacity.
  \<open>strncpy dst src n\<close> writes exactly \<open>n\<close> bytes at offsets \<open>0..n-1\<close>: the first
  \<open>n\<close> characters of \<open>src\<close>, padded with NUL bytes when \<open>src\<close> is shorter.  A write
  beyond the capacity is out of bounds.
\<close>

definition strncpy :: "string \<Rightarrow> string \<Rightarrow> nat \<Rightarrow> fault + string" where
  "strncpy dst src n =
     (if length dst < n then Inl OutOfBounds
      else Inr (take n src @ replicate (n - length src) (CHR 0x00) @ drop n dst))"

definition store_byte :: "string \<Rightarrow> nat \<Rightarrow> char \<Rightarrow> fault + string" where
  "store_byte buf i c = (if i < length buf then Inr (buf[i := c]) else Inl OutOfBounds)"

subsection \<open>The link layer (\<open>list.h\<close>)\<close>

text \<open>
  \<open>queue.c\<close> is written with the primitives of \<open>list.h\<close>, a header of the
  repository that is not among the sources at hand.  They are the link layer of the
  spec: \<open>link(node, afterNode)\<close> splices a node immediately after another one,
  \<open>unlink(node)\<close> removes a node from its ring, \<open>moveToFront(node, sentinel)\<close>
  unlinks and then links after the sentinel.
\<close>

text \<open>
  Modelled from the spec: \<open>INIT_LIST_HEAD\<close> of the missing \<open>list.h\<close>.  It makes a
  node the sentinel of an empty queue: \<open>sentinel.next == sentinel\<close> and
  \<open>sentinel.prev == sentinel\<close>.
\<close>

definition INIT_LIST_HEAD :: "addr \<Rightarrow> heap \<Rightarrow> heap" where
  "INIT_LIST_HEAD head h = h\<lparr>nxt := (nxt h)(head := head), prv := (prv h)(head := head)\<rparr>"

text \<open>
  Modelled from the spec: \<open>list_add\<close> of the missing \<open>list.h\<close>, the spec's
  \<open>link(node, afterNode)\<close>: splice \<open>node\<close> immediately after \<open>head\<close>.
\<close>

definition list_add :: "addr \<Rightarrow> addr \<Rightarrow> heap \<Rightarrow> heap" where
  "list_add node head h =
     (let next = nxt h head in
      h\<lparr>prv := (prv h)(next := node, node := head),
        nxt := (nxt h)(node := next, head := node)\<rparr>)"

text \<open>
  Modelled from the spec: \<open>list_add_tail\<close> of the missing \<open>list.h\<close>: splice
  \<open>node\<close> immediately before \<open>head\<close>, that is at the tail end of the ring.
\<close>

definition list_add_tail :: "addr \<Rightarrow> addr \<Rightarrow> heap \<Rightarrow> heap" where
  "list_add_tail node head h =
     (let prev = prv h head in
      h\<lparr>nxt := (nxt h)(prev := node, node := head),
        prv := (prv h)(node := prev, head := node)\<rparr>)"

text \<open>
  Modelled from the spec: \<open>list_del\<close> of the missing \<open>list.h\<close>, the spec's
  \<open>unlink(node)\<close>: the neighbours of \<open>node\<close> are linked to each other; the
  fields of \<open>node\<close> itself are not written.
\<close>

definition list_del :: "addr \<Rightarrow> heap \<Rightarrow> heap" where
  "list_del node h =
     (let next = nxt h node; prev = prv h node in
      h\<lparr>prv := (prv h)(next := prev), nxt := (nxt h)(prev := next)\<rparr>)"

text \<open>
  Modelled from the spec: \<open>list_del_init\<close> of the missing \<open>list.h\<close>: unlink
  \<open>node\<close> and initialise it again, which leaves it in the self-referential state
  that the spec calls the common one.
\<close>

definition list_del_init :: "addr \<Rightarrow> heap \<Rightarrow> heap" where
  "list_del_init node h = INIT_LIST_HEAD node (list_del node h)"

text \<open>
  Modelled from the spec: \<open>list_move\<close> of the missing \<open>list.h\<close>, the spec's
  \<open>moveToFront(node, sentinel)\<close>: unlink, then link immediately after \<open>head\<close>.
\<close>

definition list_move :: "addr \<Rightarrow> addr \<Rightarrow> heap \<Rightarrow> heap" where
  "list_move node head h = list_add node head (list_del node h)"

text \<open>
  Modelled from the spec: \<open>list_empty\<close> of the missing \<open>list.h\<close>: the sentinel
  of an empty queue is its own successor.
\<close>

definition list_empty :: "addr \<Rightarrow> heap \<Rightarrow> bool" where
  "list_empty head h = (nxt h head = head)"

text \<open>
  Modelled from the spec: \<open>list_is_singular\<close> of the missing \<open>list.h\<close>: the
  queue holds exactly one element when it is not empty and the first element is the
  last one.
\<close>

definition list_is_singular :: "addr \<Rightarrow> heap \<Rightarrow> bool" where
  "list_is_singular head h = (\<not> list_empty head h \<and> prv h head = nxt h head)"

section \<open>Queue operations (\<open>queue.c\<close>)\<close>

definition q_new :: "addr option \<Rightarrow> heap \<Rightarrow> heap \<times> addr" where
  "q_new r h =
     (case malloc r h of (h1, head) \<Rightarrow>
        if head = NULL then (h1, NULL) else (INIT_LIST_HEAD head h1, head))"

definition q_release_element :: "addr \<Rightarrow> heap \<Rightarrow> heap" where
  "q_release_element e h = free e (free (val h e) h)"

text \<open>
  \<open>list_for_each_entry_safe (cur, next, head, list)\<close> keeps the successor of the
  current entry in \<open>next\<close>, so that the body may release the current entry.
\<close>

partial_function (option) q_free_loop :: "addr \<Rightarrow> addr \<Rightarrow> addr \<Rightarrow> heap \<Rightarrow> heap option" where
  "q_free_loop head cur next h =
     (if cur \<noteq> head
      then (let h1 = q_release_element cur h in q_free_loop head next (nxt h1 next) h1)
      else Some h)"

definition q_free :: "addr \<Rightarrow> heap \<Rightarrow> heap option" where
  "q_free head h =
     (if head = NULL then Some h
      else (case q_free_loop head (nxt h head) (nxt h (nxt h head)) h of
              None \<Rightarrow> None
            | Some h1 \<Rightarrow> Some (free head h1)))"

definition q_insert_head ::
  "addr \<Rightarrow> string option \<Rightarrow> addr option \<Rightarrow> addr option \<Rightarrow> heap \<Rightarrow> fault + heap \<times> bool" where
  "q_insert_head head s r_node r_str h =
     (if head = NULL then Inr (h, False)
      else (case malloc r_node h of (h1, q_node) \<Rightarrow>
        if q_node = NULL then Inr (h1, False)
        else (case strdup s r_str h1 of
                Inl f \<Rightarrow> Inl f
              | Inr (h2, p) \<Rightarrow>
                  (let h3 = h2\<lparr>val := (val h2)(q_node := p)\<rparr> in
                   if val h3 q_node = NULL then Inr (q_release_element q_node h3, False)
                   else Inr (list_add q_node head h3, True)))))"

definition q_insert_tail ::
  "addr \<Rightarrow> string option \<Rightarrow> addr option \<Rightarrow> addr option \<Rightarrow> heap \<Rightarrow> fault + heap \<times> bool" where
  "q_insert_tail head s r_node r_str h =
     (if head = NULL then Inr (h, False)
      else (case malloc r_node h of (h1, q_node) \<Rightarrow>
        if q_node = NULL then Inr (h1, False)
        else (case strdup s r_str h1 of
                Inl f \<Rightarrow> Inl f
              | Inr (h2, p) \<Rightarrow>
                  (let h3 = h2\<lparr>val := (val h2)(q_node := p)\<rparr> in
                   if val h3 q_node = NULL then Inr (q_release_element q_node h3, False)
                   else Inr (list_add_tail q_node head h3, True)))))"

text \<open>
  The output buffer \<open>sp\<close> is \<open>None\<close> for a null pointer and otherwise the bytes of
  the caller's buffer.  \<open>bufsize\<close> is a \<open>size_t\<close>, so \<open>bufsize - 1\<close> wraps around
  at 0.
\<close>

definition copy_out :: "string \<Rightarrow> string \<Rightarrow> 64 word \<Rightarrow> fault + string" where
  "copy_out sp v bufsize =
     (case strncpy sp v (unat (bufsize - 1)) of
        Inl f \<Rightarrow> Inl f
      | Inr sp1 \<Rightarrow> store_byte sp1 (unat (bufsize - 1)) (CHR 0x00))"

definition q_remove_head ::
  "addr \<Rightarrow> string option \<Rightarrow> 64 word \<Rightarrow> heap \<Rightarrow> fault + heap \<times> addr \<times> string option" where
  "q_remove_head head sp bufsize h =
     (if head = NULL \<or> list_empty head h then Inr (h, NULL, sp)
      else (let removed_node = nxt h head;
                h1 = list_del_init removed_node h in
            case sp of
              None \<Rightarrow> Inr (h1, removed_node, None)
            | Some buf \<Rightarrow>
                (case copy_out buf (text_of h1 removed_node) bufsize of
                   Inl f \<Rightarrow> Inl f
                 | Inr buf1 \<Rightarrow> Inr (h1, removed_node, Some buf1))))"

definition q_remove_tail ::
  "addr \<Rightarrow> string option \<Rightarrow> 64 word \<Rightarrow> heap \<Rightarrow> fault + heap \<times> addr \<times> string option" where
  "q_remove_tail head sp bufsize h =
     (if head = NULL \<or> list_empty head h then Inr (h, NULL, sp)
      else (let removed_node = prv h head;
                h1 = list_del_init removed_node h in
            case sp of
              None \<Rightarrow> Inr (h1, removed_node, None)
            | Some buf \<Rightarrow>
                (case copy_out buf (text_of h1 removed_node) bufsize of
                   Inl f \<Rightarrow> Inl f
                 | Inr buf1 \<Rightarrow> Inr (h1, removed_node, Some buf1))))"

text \<open>
  The counter \<open>len\<close> of \<open>q_size\<close> is a C \<open>int\<close>: a 32-bit word here, read as
  a signed number at the end (C leaves its overflow undefined; the model wraps around).
\<close>

partial_function (option) q_size_loop ::
  "addr \<Rightarrow> addr \<Rightarrow> 32 word \<Rightarrow> heap \<Rightarrow> 32 word option" where
  "q_size_loop head li len h =
     (if li \<noteq> head then q_size_loop head (nxt h li) (len + 1) h else Some len)"

definition q_size :: "addr \<Rightarrow> heap \<Rightarrow> int option" where
  "q_size head h =
     (if head = NULL then Some 0 else map_option sint (q_size_loop head (nxt h head) 0 h))"

partial_function (option) q_delete_mid_loop :: "addr \<Rightarrow> addr \<Rightarrow> addr \<Rightarrow> heap \<Rightarrow> addr option" where
  "q_delete_mid_loop head fast_ptr slow_ptr h =
     (if fast_ptr \<noteq> head \<and> fast_ptr \<noteq> prv h head
      then q_delete_mid_loop head (nxt h (nxt h fast_ptr)) (nxt h slow_ptr) h
      else Some slow_ptr)"

text \<open>
  \<open>q_delete_mid\<close> up to and including \<open>list_del_init\<close>: the heap in which the
  middle node has been unlinked but not yet released, and that node.
\<close>

definition q_delete_mid_unlink :: "addr \<Rightarrow> heap \<Rightarrow> (heap \<times> addr) option" where
  "q_delete_mid_unlink head h =
     (case q_delete_mid_loop head (nxt h head) (nxt h head) h of
        None \<Rightarrow> None
      | Some mid_node \<Rightarrow> Some (list_del_init mid_node h, mid_node))"

definition q_delete_mid :: "addr \<Rightarrow> heap \<Rightarrow> (heap \<times> bool) option" where
  "q_delete_mid head h =
     (if head = NULL \<or> list_empty head h then Some (h, False)
      else (case q_delete_mid_unlink head h of
              None \<Rightarrow> None
            | Some (h1, mid_node) \<Rightarrow> Some (q_release_element mid_node h1, True)))"

partial_function (option) q_swap_loop :: "addr \<Rightarrow> addr \<Rightarrow> heap \<Rightarrow> heap option" where
  "q_swap_loop head node h =
     (if node \<noteq> head \<and> nxt h node \<noteq> head
      then (let next_node = nxt h node;
                h1 = list_del_init node h;
                h2 = list_add node next_node h1
            in q_swap_loop head (nxt h2 node) h2)
      else Some h)"

definition q_swap :: "addr \<Rightarrow> heap \<Rightarrow> heap option" where
  "q_swap head h = (if head = NULL then Some h else q_swap_loop head (nxt h head) h)"

text \<open>\<open>list_for_each_safe (node, safe, head)\<close> with body \<open>list_move(node, head)\<close>.\<close>

partial_function (option) q_reverse_loop :: "addr \<Rightarrow> addr \<Rightarrow> addr \<Rightarrow> heap \<Rightarrow> heap option" where
  "q_reverse_loop head node safe h =
     (if node \<noteq> head
      then (let h1 = list_move node head h in q_reverse_loop head safe (nxt h1 safe) h1)
      else Some h)"

definition q_reverse :: "addr \<Rightarrow> heap \<Rightarrow> heap option" where
  "q_reverse head h =
     (if head = NULL \<or> list_empty head h then Some h
      else q_reverse_loop head (nxt h head) (nxt h (nxt h head)) h)"

subsection \<open>Merge sort\<close>

text \<open>
  \<open>mergeTwoLists\<close> and \<open>q_sort\<close> walk the chain with a pointer to a pointer.  Such
  a pointer designates either the local variable \<open>head\<close> of the function or the
  \<open>next\<close> field of a node.  In \<open>mergeTwoLists\<close> the pointer \<open>node\<close> designates one
  of the two parameters \<open>left\<close> and \<open>right\<close>.
\<close>

datatype loc = LocalHead | NextOf addr

fun load :: "loc \<Rightarrow> addr \<Rightarrow> heap \<Rightarrow> addr" where
  "load LocalHead head h = head"
| "load (NextOf a) head h = nxt h a"

fun store :: "loc \<Rightarrow> addr \<Rightarrow> addr \<Rightarrow> heap \<Rightarrow> addr \<times> heap" where
  "store LocalHead v head h = (v, h)"
| "store (NextOf a) v head h = (head, h\<lparr>nxt := (nxt h)(a := v)\<rparr>)"

datatype side = Left | Right

partial_function (option) mergeTwoLists_loop ::
  "addr \<Rightarrow> addr \<Rightarrow> addr \<Rightarrow> loc \<Rightarrow> heap \<Rightarrow> (heap \<times> addr) option" where
  "mergeTwoLists_loop left right head ptr h =
     (if left \<noteq> NULL \<and> right \<noteq> NULL
      then (let node = (if strcmp (text_of h left) (text_of h right) < 0 then Left else Right);
                cur = (case node of Left \<Rightarrow> left | Right \<Rightarrow> right);
                (head1, h1) = store ptr cur head h;
                ptr1 = NextOf (load ptr head1 h1);
                cur1 = (case node of Left \<Rightarrow> left | Right \<Rightarrow> right)
            in (case node of
                  Left \<Rightarrow> mergeTwoLists_loop (nxt h1 cur1) right head1 ptr1 h1
                | Right \<Rightarrow> mergeTwoLists_loop left (nxt h1 cur1) head1 ptr1 h1))
      else (let (head1, h1) = store ptr (left OR right) head h in Some (h1, head1)))"

definition mergeTwoLists :: "addr \<Rightarrow> addr \<Rightarrow> heap \<Rightarrow> (heap \<times> addr) option" where
  "mergeTwoLists left right h = mergeTwoLists_loop left right NULL LocalHead h"

partial_function (option) mergesort_split :: "addr \<Rightarrow> addr \<Rightarrow> heap \<Rightarrow> addr option" where
  "mergesort_split fast slow h =
     (if fast \<noteq> NULL \<and> nxt h fast \<noteq> NULL
      then mergesort_split (nxt h (nxt h fast)) (nxt h slow) h
      else Some slow)"

partial_function (option) mergesort :: "addr \<Rightarrow> heap \<Rightarrow> (heap \<times> addr) option" where
  "mergesort head h =
     (if head = NULL \<or> nxt h head = NULL then Some (h, head)
      else do {
        slow \<leftarrow> mergesort_split head head h;
        let mid = slow;
        let h1 = h\<lparr>nxt := (nxt h)(prv h slow := NULL)\<rparr>;
        (h2, left) \<leftarrow> mergesort head h1;
        (h3, right) \<leftarrow> mergesort mid h2;
        mergeTwoLists left right h3
      })"

partial_function (option) q_sort_loop :: "addr \<Rightarrow> loc \<Rightarrow> heap \<Rightarrow> (loc \<times> heap) option" where
  "q_sort_loop head ptr h =
     (if nxt h (load ptr head h) \<noteq> NULL
      then q_sort_loop head (NextOf (load ptr head h))
             (h\<lparr>prv := (prv h)(nxt h (load ptr head h) := load ptr head h)\<rparr>)
      else Some (ptr, h))"

definition q_sort :: "addr \<Rightarrow> heap \<Rightarrow> heap option" where
  "q_sort head h =
     (if head = NULL \<or> list_empty head h \<or> list_is_singular head h then Some h
      else (let h1 = h\<lparr>nxt := (nxt h)(prv h head := NULL)\<rparr> in
            case mergesort (nxt h1 head) h1 of
              None \<Rightarrow> None
            | Some (h2, first) \<Rightarrow>
                (let h3 = h2\<lparr>nxt := (nxt h2)(head := first)\<rparr> in
                 case q_sort_loop head LocalHead h3 of
                   None \<Rightarrow> None
                 | Some (ptr, h4) \<Rightarrow>
                     (let h5 = h4\<lparr>nxt := (nxt h4)(load ptr head h4 := head)\<rparr> in
                      Some (h5\<lparr>prv := (prv h5)(head := load ptr head h5)\<rparr>)))))"

partial_function (option) q_delete_dup_loop :: "addr \<Rightarrow> addr \<Rightarrow> addr \<Rightarrow> heap \<Rightarrow> heap option" where
  "q_delete_dup_loop head slow fast h =
     (if slow \<noteq> head
      then (let h1 = (if nxt h slow \<noteq> head \<and> strcmp (text_of h slow) (text_of h fast) = 0
                      then q_release_element slow (list_del_init slow h)
                      else h)
            in q_delete_dup_loop head fast (nxt h1 fast) h1)
      else Some h)"

definition q_delete_dup :: "addr \<Rightarrow> heap \<Rightarrow> (heap \<times> bool) option" where
  "q_delete_dup head h =
     (if head = NULL then Some (h, False)
      else (case q_sort head h of
              None \<Rightarrow> None
            | Some h1 \<Rightarrow>
                (case q_delete_dup_loop head (nxt h1 head) (nxt h1 (nxt h1 head)) h1 of
                   None \<Rightarrow> None
                 | Some h2 \<Rightarrow> Some (h2, True))))"


section \<open>The ring of a queue\<close>

text \<open>
  \<open>dseg n p a xs b\<close>: following the \<open>next\<close> fields \<open>n\<close> from \<open>a\<close> visits exactly the
  nodes \<open>xs\<close> and then reaches \<open>b\<close>, and the \<open>prev\<close> fields \<open>p\<close> lead back along the
  same way.  \<open>ring h head xs\<close>: the ring anchored at the sentinel \<open>head\<close> holds the
  nodes \<open>xs\<close> in traversal order.
\<close>

fun dseg :: "(addr \<Rightarrow> addr) \<Rightarrow> (addr \<Rightarrow> addr) \<Rightarrow> addr \<Rightarrow> addr list \<Rightarrow> addr \<Rightarrow> bool" where
  "dseg n p a [] b = (n a = b \<and> p b = a)"
| "dseg n p a (x # xs) b = (n a = x \<and> p x = a \<and> dseg n p x xs b)"

definition ring :: "heap \<Rightarrow> addr \<Rightarrow> addr list \<Rightarrow> bool" where
  "ring h head xs =
     (dseg (nxt h) (prv h) head xs head \<and> distinct (head # xs) \<and> NULL \<notin> set (head # xs))"

text \<open>
  The invariant of the data model: every node of the ring, the sentinel included, has
  \<open>node.next.prev == node\<close> and \<open>node.prev.next == node\<close>, and the sentinel of an
  empty queue points to itself in both directions.
\<close>

definition ring_invariant :: "heap \<Rightarrow> addr \<Rightarrow> addr list \<Rightarrow> bool" where
  "ring_invariant h head xs =
     ((\<forall>node\<in>set (head # xs). prv h (nxt h node) = node \<and> nxt h (prv h node) = node) \<and>
      (xs = [] \<longrightarrow> nxt h head = head \<and> prv h head = head))"

text \<open>
  Ownership: the sentinel, the elements and their string blocks are allocated,
  pairwise different blocks, and none of them is \<open>NULL\<close>.
\<close>

definition owns :: "heap \<Rightarrow> addr \<Rightarrow> addr list \<Rightarrow> bool" where
  "owns h head xs =
     (head \<in> live h \<and>
      (\<forall>x\<in>set xs. x \<in> live h \<and> val h x \<in> live h \<and> val h x \<noteq> NULL \<and>
                    val h x \<noteq> head \<and> val h x \<notin> set xs) \<and>
      (\<forall>x\<in>set xs. \<forall>y\<in>set xs. val h x = val h y \<longrightarrow> x = y))"

definition queue :: "heap \<Rightarrow> addr \<Rightarrow> addr list \<Rightarrow> bool" where
  "queue h head xs = (ring h head xs \<and> owns h head xs)"

definition texts :: "heap \<Rightarrow> addr list \<Rightarrow> string list" where
  "texts h xs = map (text_of h) xs"

text \<open>
  A queue is well formed when its ring is linked, it owns its blocks and the ring
  invariant holds.  The results of \<open>malloc\<close> are fresh when every block handed out
  is not \<open>NULL\<close>, is not allocated yet, and differs from the one handed out before.
\<close>

definition well_formed :: "heap \<Rightarrow> addr \<Rightarrow> addr list \<Rightarrow> bool" where
  "well_formed h head xs = (queue h head xs \<and> ring_invariant h head xs)"

definition fresh_alloc :: "addr option \<Rightarrow> addr option \<Rightarrow> heap \<Rightarrow> bool" where
  "fresh_alloc r_node r_str h =
     ((case r_node of None \<Rightarrow> True | Some q \<Rightarrow> q \<noteq> NULL \<and> q \<notin> live h) \<and>
      (case r_str of None \<Rightarrow> True | Some p \<Rightarrow> p \<noteq> NULL \<and> p \<notin> live h \<and> r_node \<noteq> Some p))"

section \<open>The operations on the sequence of elements\<close>

text \<open>
  What the list algorithms do to the traversal order, as functions on lists.
  \<open>swap_pairs\<close> exchanges the elements at positions 0 and 1, 2 and 3, and so on;
  \<open>merge_list\<close> merges two sequences, taking from the first one only where its head
  compares strictly smaller; \<open>msort_list\<close> splits at \<open>length xs div 2\<close>, where the
  slow pointer stops, sorts both halves and merges them; \<open>drop_adjacent\<close> drops every
  element whose successor carries an equal text.
\<close>

fun swap_pairs :: "'a list \<Rightarrow> 'a list" where
  "swap_pairs (a # b # xs) = b # a # swap_pairs xs"
| "swap_pairs xs = xs"

fun merge_list :: "('a \<Rightarrow> string) \<Rightarrow> 'a list \<Rightarrow> 'a list \<Rightarrow> 'a list" where
  "merge_list t [] rs = rs"
| "merge_list t (l # ls) [] = l # ls"
| "merge_list t (l # ls) (r # rs) =
     (if strcmp (t l) (t r) < 0 then l # merge_list t ls (r # rs)
      else r # merge_list t (l # ls) rs)"

fun msort_list :: "('a \<Rightarrow> string) \<Rightarrow> 'a list \<Rightarrow> 'a list" where
  "msort_list t [] = []"
| "msort_list t [x] = [x]"
| "msort_list t xs =
     merge_list t (msort_list t (take (length xs div 2) xs))
                  (msort_list t (drop (length xs div 2) xs))"

fun drop_adjacent :: "('a \<Rightarrow> string) \<Rightarrow> 'a list \<Rightarrow> 'a list" where
  "drop_adjacent t (a # b # xs) =
     (if strcmp (t a) (t b) = 0 then drop_adjacent t (b # xs)
      else a # drop_adjacent t (b # xs))"
| "drop_adjacent t xs = xs"

text \<open>Ascending order: every element compares \<open>\<le>\<close> with its successor.\<close>

fun ascending :: "string list \<Rightarrow> bool" where
  "ascending (a # b # xs) = (strcmp a b \<le> 0 \<and> ascending (b # xs))"
| "ascending xs = True"

text \<open>
  During the sort the ring is a null-terminated chain along \<open>next\<close>; \<open>prev\<close> still
  holds the links of the unsorted ring (\<open>plinks\<close>).
\<close>

fun chain :: "(addr \<Rightarrow> addr) \<Rightarrow> addr \<Rightarrow> addr list \<Rightarrow> bool" where
  "chain n a [] = (a = NULL)"
| "chain n a (x # xs) = (a = x \<and> x \<noteq> NULL \<and> chain n (n x) xs)"

fun plinks :: "(addr \<Rightarrow> addr) \<Rightarrow> addr list \<Rightarrow> bool" where
  "plinks p (a # b # xs) = (p b = a \<and> plinks p (b # xs))"
| "plinks p xs = True"

section \<open>Observing and building queues\<close>

text \<open>
  \<open>q_elements\<close> is the traversal \<open>list_for_each\<close> of \<open>q_size\<close> that collects the
  nodes instead of counting them; \<open>q_texts\<close> reads their strings.  \<open>q_build\<close>
  creates a queue with \<open>q_new\<close> in the empty heap and inserts the given strings with
  \<open>q_insert_tail\<close>; every cell names the addresses that the allocator hands out for
  the element and for its string.
\<close>

partial_function (option) q_elements_loop ::
  "addr \<Rightarrow> addr \<Rightarrow> addr list \<Rightarrow> heap \<Rightarrow> addr list option" where
  "q_elements_loop head li acc h =
     (if li \<noteq> head then q_elements_loop head (nxt h li) (acc @ [li]) h else Some acc)"

definition q_elements :: "addr \<Rightarrow> heap \<Rightarrow> addr list option" where
  "q_elements head h = q_elements_loop head (nxt h head) [] h"

definition q_texts :: "addr \<Rightarrow> heap \<Rightarrow> string list option" where
  "q_texts head h = map_option (texts h) (q_elements head h)"

definition empty_heap :: heap where
  "empty_heap = \<lparr>nxt = (\<lambda>a. NULL), prv = (\<lambda>a. NULL), val = (\<lambda>a. NULL), str = (\<lambda>a. []),
                  live = {}\<rparr>"

fun q_build_tail :: "addr \<Rightarrow> (addr \<times> addr \<times> string) list \<Rightarrow> heap \<Rightarrow> heap" where
  "q_build_tail head [] h = h"
| "q_build_tail head ((q, p, s) # cells) h =
     (case q_insert_tail head (Some s) (Some q) (Some p) h of
        Inr (h1, ok) \<Rightarrow> q_build_tail head cells h1
      | Inl f \<Rightarrow> h)"

definition q_build :: "addr \<Rightarrow> (addr \<times> addr \<times> string) list \<Rightarrow> heap" where
  "q_build head cells = q_build_tail head cells (fst (q_new (Some head) empty_heap))"

section \<open>Properties of the operations\<close>

subsection \<open>The link layer\<close>

lemma dseg_append: "dseg n p a (xs @ y # ys) b = (dseg n p a xs y \<and> dseg n p y ys b)"
  by (induction xs arbitrary: a) auto

lemma dseg_nxt_upd [simp]:
  "c \<notin> set (a # xs) \<Longrightarrow> dseg (n(c := v)) p a xs b = dseg n p a xs b"
  by (induction xs arbitrary: a) auto

lemma dseg_prv_upd [simp]:
  "c \<notin> set (xs @ [b]) \<Longrightarrow> dseg n (p(c := v)) a xs b = dseg n p a xs b"
  by (induction xs arbitrary: a) auto

lemma dseg_first: "dseg n p a xs b \<Longrightarrow> n a = hd (xs @ [b])"
  by (cases xs) auto

lemma dseg_final: "dseg n p a xs b \<Longrightarrow> p b = last (a # xs)"
  by (induction xs arbitrary: a) auto

lemma ring_nxt_head: "ring h head xs \<Longrightarrow> nxt h head = hd (xs @ [head])"
  unfolding ring_def using dseg_first by blast

lemma ring_prv_head: "ring h head xs \<Longrightarrow> prv h head = last (head # xs)"
  unfolding ring_def using dseg_final by blast

lemma ring_nxt_mid: "ring h head (as @ x # bs) \<Longrightarrow> nxt h x = hd (bs @ [head])"
  unfolding ring_def dseg_append using dseg_first by blast

lemma ring_prv_mid: "ring h head (as @ x # bs) \<Longrightarrow> prv h x = last (head # as)"
  unfolding ring_def dseg_append using dseg_final by blast

lemma ring_list_del:
  assumes "ring h head (as @ x # bs)"
  shows "ring (list_del x h) head (as @ bs)"
  using assms
  by (cases as rule: rev_cases; cases bs)
     (auto simp: ring_def list_del_def dseg_append Let_def)

lemma ring_INIT_frame:
  "x \<notin> set (head # xs) \<Longrightarrow> ring (INIT_LIST_HEAD x h) head xs = ring h head xs"
  by (auto simp: ring_def INIT_LIST_HEAD_def)

lemma ring_list_del_init:
  assumes "ring h head (as @ x # bs)"
  shows "ring (list_del_init x h) head (as @ bs)"
proof -
  have "x \<notin> set (head # as @ bs)"
    using assms by (auto simp: ring_def)
  then show ?thesis
    unfolding list_del_init_def using ring_list_del [OF assms] ring_INIT_frame by blast
qed

lemma ring_list_add:
  assumes "ring h head (as @ bs)" "x \<notin> set (head # as @ bs)" "x \<noteq> NULL"
  shows "ring (list_add x (last (head # as)) h) head (as @ x # bs)"
  using assms
  by (cases as rule: rev_cases; cases bs)
     (auto simp: ring_def list_add_def dseg_append Let_def)

lemma ring_list_add_tail:
  assumes "ring h head xs" "x \<notin> set (head # xs)" "x \<noteq> NULL"
  shows "ring (list_add_tail x head h) head (xs @ [x])"
  using assms
  by (cases xs rule: rev_cases)
     (auto simp: ring_def list_add_tail_def dseg_append Let_def)

lemma ring_list_move:
  assumes "ring h head (as @ x # bs)"
  shows "ring (list_move x head h) head (x # as @ bs)"
proof -
  have "ring (list_del x h) head ([] @ as @ bs)"
    using ring_list_del [OF assms] by simp
  moreover have "x \<notin> set (head # [] @ as @ bs)" "x \<noteq> NULL"
    using assms by (auto simp: ring_def)
  ultimately have "ring (list_add x (last (head # [])) (list_del x h)) head ([] @ x # as @ bs)"
    by (rule ring_list_add)
  then show ?thesis
    by (simp add: list_move_def)
qed

lemma link_layer_fields [simp]:
  "val (INIT_LIST_HEAD x h) = val h" "str (INIT_LIST_HEAD x h) = str h"
  "live (INIT_LIST_HEAD x h) = live h"
  "val (list_del x h) = val h" "str (list_del x h) = str h" "live (list_del x h) = live h"
  "val (list_del_init x h) = val h" "str (list_del_init x h) = str h"
  "live (list_del_init x h) = live h"
  "val (list_add x y h) = val h" "str (list_add x y h) = str h"
  "live (list_add x y h) = live h"
  "val (list_add_tail x y h) = val h" "str (list_add_tail x y h) = str h"
  "live (list_add_tail x y h) = live h"
  "val (list_move x y h) = val h" "str (list_move x y h) = str h"
  "live (list_move x y h) = live h"
  by (simp_all add: INIT_LIST_HEAD_def list_del_def list_del_init_def list_add_def
        list_add_tail_def list_move_def Let_def)

lemma text_of_link_layer [simp]:
  "text_of (list_del_init x h) = text_of h" "text_of (list_move x y h) = text_of h"
  "text_of (list_add x y h) = text_of h" "text_of (list_add_tail x y h) = text_of h"
  by (simp_all add: text_of_def fun_eq_iff)

lemma dseg_inner: "dseg n p a xs b \<Longrightarrow> x \<in> set xs \<Longrightarrow> n (p x) = x \<and> p (n x) = x"
proof (induction xs arbitrary: a)
  case Nil
  then show ?case by simp
next
  case (Cons y ys)
  then show ?case by (cases ys) auto
qed

lemma dseg_ends: "dseg n p a xs b \<Longrightarrow> p (n a) = a \<and> n (p b) = b"
  by (induction xs arbitrary: a) auto

lemma ring_imp_invariant: "ring h head xs \<Longrightarrow> ring_invariant h head xs"
  unfolding ring_def ring_invariant_def using dseg_inner dseg_ends by fastforce

subsection \<open>The loops of reversal and pairwise swap\<close>

lemma q_reverse_loop_ring:
  "ring h head (ds @ ts) \<Longrightarrow>
   \<exists>h'. q_reverse_loop head (hd (ts @ [head])) (nxt h (hd (ts @ [head]))) h = Some h' \<and>
        ring h' head (rev ts @ ds) \<and> val h' = val h \<and> str h' = str h \<and> live h' = live h"
proof (induction ts arbitrary: ds h)
  case Nil
  then show ?case
    by (subst q_reverse_loop.simps) simp
next
  case (Cons t ts)
  let ?h1 = "list_move t head h"
  have t: "t \<noteq> head"
    using Cons.prems by (auto simp: ring_def)
  have r1: "ring ?h1 head ((t # ds) @ ts)"
    using ring_list_move [OF Cons.prems] by simp
  have safe: "nxt h t = hd (ts @ [head])"
    using ring_nxt_mid [OF Cons.prems] .
  from Cons.IH [OF r1] obtain h' where
    "q_reverse_loop head (hd (ts @ [head])) (nxt ?h1 (hd (ts @ [head]))) ?h1 = Some h'"
    "ring h' head (rev ts @ t # ds)" "val h' = val ?h1" "str h' = str ?h1" "live h' = live ?h1"
    by auto
  then show ?case
    using t safe by (subst q_reverse_loop.simps) (simp add: Let_def)
qed

lemma q_swap_loop_ring:
  "ring h head (ds @ ts) \<Longrightarrow>
   \<exists>h'. q_swap_loop head (hd (ts @ [head])) h = Some h' \<and>
        ring h' head (ds @ swap_pairs ts) \<and> val h' = val h \<and> str h' = str h \<and> live h' = live h"
proof (induction ts arbitrary: ds h rule: induct_list012)
  case (3 a b ts)
  let ?h1 = "list_del_init a h"
  let ?h2 = "list_add a b ?h1"
  have ne: "a \<noteq> head" "b \<noteq> head" "a \<noteq> b" "a \<noteq> NULL" "a \<notin> set (head # (ds @ [b]) @ ts)"
    using "3.prems" by (auto simp: ring_def)
  have nx: "nxt h a = b"
    using ring_nxt_mid [OF "3.prems"] by simp
  have "ring ?h1 head ((ds @ [b]) @ ts)"
    using ring_list_del_init [OF "3.prems"] by simp
  from ring_list_add [OF this ne(5) ne(4)]
  have r2: "ring ?h2 head ((ds @ [b, a]) @ ts)"
    by simp
  then have nx2: "nxt ?h2 a = hd (ts @ [head])"
    using ring_nxt_mid [of ?h2 head "ds @ [b]" a ts] by simp
  from "3.IH"(1) [OF r2] obtain h' where
    "q_swap_loop head (hd (ts @ [head])) ?h2 = Some h'"
    "ring h' head ((ds @ [b, a]) @ swap_pairs ts)" "val h' = val ?h2" "str h' = str ?h2"
    "live h' = live ?h2"
    by auto
  then show ?case
    using ne nx nx2 by (subst q_swap_loop.simps) (simp add: Let_def)
next
  case 1
  then show ?case
    by (subst q_swap_loop.simps) simp
next
  case (2 a)
  then have "nxt h a = head"
    using ring_nxt_mid [of h head ds a "[]"] by simp
  then show ?case
    using 2 by (subst q_swap_loop.simps) simp
qed

subsection \<open>The ring by index: the loops of delete-middle and size\<close>

lemma ring_nxt_nth:
  assumes "ring h head xs" "i < length xs"
  shows "nxt h (xs ! i) = (xs @ [head]) ! Suc i"
proof -
  have "ring h head (take i xs @ xs ! i # drop (Suc i) xs)"
    using assms by (simp add: id_take_nth_drop [symmetric])
  then have "nxt h (xs ! i) = hd (drop (Suc i) xs @ [head])"
    by (rule ring_nxt_mid)
  also have "drop (Suc i) xs @ [head] = drop (Suc i) (xs @ [head])"
    using assms by simp
  also have "hd (drop (Suc i) (xs @ [head])) = (xs @ [head]) ! Suc i"
    using hd_drop_conv_nth [of "Suc i" "xs @ [head]"] assms by simp
  finally show ?thesis .
qed

lemma ring_cyc_nxt:
  assumes "ring h head xs" "i < length xs"
  shows "nxt h ((xs @ [head]) ! i) = (xs @ [head]) ! Suc i"
  using ring_nxt_nth [OF assms] assms(2) by (simp add: nth_append)

lemma ring_cyc_head:
  assumes "ring h head xs" "i \<le> length xs"
  shows "(xs @ [head]) ! i = head \<longleftrightarrow> i = length xs"
proof -
  have "distinct (xs @ [head])"
    using assms by (auto simp: ring_def)
  then have "(xs @ [head]) ! i = (xs @ [head]) ! length xs \<longleftrightarrow> i = length xs"
    using assms(2) by (intro nth_eq_iff_index_eq) auto
  then show ?thesis
    by simp
qed

lemma ring_cyc_last:
  assumes "ring h head xs" "i < length xs"
  shows "(xs @ [head]) ! i = prv h head \<longleftrightarrow> Suc i = length xs"
proof -
  have ne: "xs \<noteq> []"
    using assms(2) by auto
  have d: "distinct (xs @ [head])"
    using assms by (auto simp: ring_def)
  have "prv h head = last xs"
    using ring_prv_head [OF assms(1)] ne by simp
  also have "\<dots> = (xs @ [head]) ! (length xs - 1)"
    using ne by (simp add: last_conv_nth nth_append)
  finally have "(xs @ [head]) ! i = prv h head \<longleftrightarrow> i = length xs - 1"
    using d assms(2) by (simp add: nth_eq_iff_index_eq)
  then show ?thesis
    using ne by (cases xs) auto
qed

lemma q_delete_mid_loop_ring:
  assumes "ring h head xs"
  shows "i \<le> length xs \<Longrightarrow> j + (length xs - i) div 2 \<le> length xs \<Longrightarrow>
     q_delete_mid_loop head ((xs @ [head]) ! i) ((xs @ [head]) ! j) h =
       Some ((xs @ [head]) ! (j + (length xs - i) div 2))"
proof (induction "length xs - i" arbitrary: i j rule: less_induct)
  case less
  let ?n = "length xs"
  let ?cyc = "xs @ [head]"
  show ?case
  proof (cases "i = ?n \<or> Suc i = ?n")
    case True
    then have "?cyc ! i = head \<or> ?cyc ! i = prv h head"
      using ring_cyc_head [OF assms, of i] ring_cyc_last [OF assms, of i]
      by auto
    moreover have "(?n - i) div 2 = 0"
      using True by auto
    ultimately show ?thesis
      by (subst q_delete_mid_loop.simps) auto
  next
    case False
    then have i: "Suc (Suc i) \<le> ?n"
      using less.prems by simp
    then have j: "j < ?n"
      using less.prems by simp
    have ne: "?cyc ! i \<noteq> head" "?cyc ! i \<noteq> prv h head"
      using ring_cyc_head [OF assms, of i] ring_cyc_last [OF assms, of i] False i by auto
    have f1: "nxt h (?cyc ! i) = ?cyc ! Suc i"
      using ring_cyc_nxt [OF assms, of i] i by simp
    have f2: "nxt h (?cyc ! Suc i) = ?cyc ! Suc (Suc i)"
      using ring_cyc_nxt [OF assms, of "Suc i"] i by simp
    have s1: "nxt h (?cyc ! j) = ?cyc ! Suc j"
      using ring_cyc_nxt [OF assms, of j] j by simp
    have eq: "Suc j + (?n - Suc (Suc i)) div 2 = j + (?n - i) div 2"
      using i by auto
    have "q_delete_mid_loop head (?cyc ! Suc (Suc i)) (?cyc ! Suc j) h =
        Some (?cyc ! (Suc j + (?n - Suc (Suc i)) div 2))"
      using i less.prems by (intro less.hyps) auto
    then have "q_delete_mid_loop head (?cyc ! Suc (Suc i)) (?cyc ! Suc j) h =
        Some (?cyc ! (j + (?n - i) div 2))"
      by (subst eq [symmetric])
    then show ?thesis
      using ne f1 f2 s1 by (subst q_delete_mid_loop.simps) simp
  qed
qed

lemma q_size_loop_ring:
  assumes "ring h head xs"
  shows "i \<le> length xs \<Longrightarrow>
     q_size_loop head ((xs @ [head]) ! i) len h = Some (len + of_nat (length xs - i))"
proof (induction "length xs - i" arbitrary: i len rule: less_induct)
  case less
  let ?cyc = "xs @ [head]"
  show ?case
  proof (cases "i = length xs")
    case True
    then show ?thesis
      by (subst q_size_loop.simps) simp
  next
    case False
    then have i: "i < length xs"
      using less.prems by simp
    have ne: "?cyc ! i \<noteq> head"
      using ring_cyc_head [OF assms, of i] i by simp
    have f1: "nxt h (?cyc ! i) = ?cyc ! Suc i"
      using ring_cyc_nxt [OF assms, of i] i by simp
    have "q_size_loop head (?cyc ! Suc i) (len + 1) h =
        Some (len + 1 + of_nat (length xs - Suc i))"
      using i by (intro less.hyps) auto
    moreover have "length xs - i = Suc (length xs - Suc i)"
      using i by simp
    ultimately show ?thesis
      using ne f1 by (subst q_size_loop.simps) (simp add: add.assoc)
  qed
qed

subsection \<open>Chains\<close>

lemma chain_upd [simp]: "c \<notin> set xs \<Longrightarrow> chain (n(c := v)) a xs = chain n a xs"
  by (induction xs arbitrary: a) auto

lemma chain_not_null: "chain n a xs \<Longrightarrow> NULL \<notin> set xs"
  by (induction xs arbitrary: a) auto

lemma chain_start: "chain n a xs \<Longrightarrow> a = hd (xs @ [NULL])"
  by (cases xs) auto

lemma chain_split1:
  assumes "chain n a (l # rs)" "l \<notin> set rs"
  shows "chain (n(l := NULL)) a [l] \<and> chain (n(l := NULL)) (hd (rs @ [NULL])) rs"
proof -
  have c: "chain n (n l) rs" and l: "a = l" "l \<noteq> NULL"
    using assms by auto
  have "chain n (hd (rs @ [NULL])) rs"
    using c chain_start [OF c] by simp
  then have "chain (n(l := NULL)) (hd (rs @ [NULL])) rs"
    using assms(2) by simp
  moreover have "chain (n(l := NULL)) a [l]"
    using l by simp
  ultimately show ?thesis
    by blast
qed

lemma chain_split:
  "chain n a (ls @ c # rs) \<Longrightarrow> distinct (ls @ c # rs) \<Longrightarrow>
   chain (n(c := NULL)) a (ls @ [c]) \<and> chain (n(c := NULL)) (hd (rs @ [NULL])) rs"
proof (induction ls arbitrary: a)
  case Nil
  then have "chain n a (c # rs)" "c \<notin> set rs"
    by auto
  from chain_split1 [OF this] show ?case
    by (simp only: append_Nil)
next
  case (Cons l ls)
  then show ?case
    by auto
qed


lemma chain_nth:
  "chain n a xs \<Longrightarrow> i < length xs \<Longrightarrow> n (xs ! i) = (xs @ [NULL]) ! Suc i"
proof (induction xs arbitrary: a i)
  case Nil
  then show ?case by simp
next
  case (Cons x xs)
  show ?case
  proof (cases i)
    case 0
    then show ?thesis
      using Cons.prems chain_start [of n "n x" xs] by (cases xs) auto
  next
    case (Suc k)
    then show ?thesis
      using Cons by auto
  qed
qed

lemma chain_cyc_nxt:
  "chain n a xs \<Longrightarrow> i < length xs \<Longrightarrow> n ((xs @ [NULL]) ! i) = (xs @ [NULL]) ! Suc i"
  using chain_nth [of n a xs i] by (simp add: nth_append)

lemma chain_cyc_null:
  assumes "chain n a xs" "i \<le> length xs"
  shows "(xs @ [NULL]) ! i = NULL \<longleftrightarrow> i = length xs"
proof (cases "i = length xs")
  case True
  then show ?thesis by simp
next
  case False
  then have "xs ! i \<in> set xs"
    using assms(2) by simp
  then have "xs ! i \<noteq> NULL"
    using chain_not_null [OF assms(1)] by metis
  then show ?thesis
    using False assms(2) by (simp add: nth_append)
qed

lemma mergesort_split_chain:
  assumes "chain (nxt h) a xs"
  shows "i \<le> length xs \<Longrightarrow> j + (length xs - i) div 2 \<le> length xs \<Longrightarrow>
     mergesort_split ((xs @ [NULL]) ! i) ((xs @ [NULL]) ! j) h =
       Some ((xs @ [NULL]) ! (j + (length xs - i) div 2))"
proof (induction "length xs - i" arbitrary: i j rule: less_induct)
  case less
  let ?n = "length xs"
  let ?cyc = "xs @ [NULL]"
  show ?case
  proof (cases "i = ?n \<or> Suc i = ?n")
    case True
    have "?cyc ! i = NULL \<or> nxt h (?cyc ! i) = NULL"
    proof (cases "i = ?n")
      case True
      then show ?thesis by simp
    next
      case False
      then have "Suc i = ?n"
        using True by simp
      then have "nxt h (?cyc ! i) = ?cyc ! ?n"
        using chain_cyc_nxt [OF assms, of i] by simp
      then show ?thesis by simp
    qed
    moreover have "(?n - i) div 2 = 0"
      using True by auto
    ultimately show ?thesis
      by (subst mergesort_split.simps) auto
  next
    case False
    then have i: "Suc (Suc i) \<le> ?n"
      using less.prems by simp
    then have j: "j < ?n"
      using less.prems by simp
    have f1: "nxt h (?cyc ! i) = ?cyc ! Suc i"
      using chain_cyc_nxt [OF assms, of i] i by simp
    have f2: "nxt h (?cyc ! Suc i) = ?cyc ! Suc (Suc i)"
      using chain_cyc_nxt [OF assms, of "Suc i"] i by simp
    have s1: "nxt h (?cyc ! j) = ?cyc ! Suc j"
      using chain_cyc_nxt [OF assms, of j] j by simp
    have ne: "?cyc ! i \<noteq> NULL" "?cyc ! Suc i \<noteq> NULL"
      using chain_cyc_null [OF assms, of i] chain_cyc_null [OF assms, of "Suc i"] i by auto
    have eq: "Suc j + (?n - Suc (Suc i)) div 2 = j + (?n - i) div 2"
      using i by auto
    have "mergesort_split (?cyc ! Suc (Suc i)) (?cyc ! Suc j) h =
        Some (?cyc ! (Suc j + (?n - Suc (Suc i)) div 2))"
      using i less.prems by (intro less.hyps) auto
    then have "mergesort_split (?cyc ! Suc (Suc i)) (?cyc ! Suc j) h =
        Some (?cyc ! (j + (?n - i) div 2))"
      by (subst eq [symmetric])
    then show ?thesis
      using ne f1 f2 s1 by (subst mergesort_split.simps) simp
  qed
qed

lemma plinks_append:
  "plinks p (ls @ rs) \<Longrightarrow>
   plinks p ls \<and> plinks p rs \<and> (ls \<noteq> [] \<and> rs \<noteq> [] \<longrightarrow> p (hd rs) = last ls)"
proof (induction ls rule: induct_list012)
  case 1
  then show ?case by simp
next
  case (2 a)
  then show ?case by (cases rs) auto
next
  case (3 a b xs)
  then show ?case by auto
qed

subsection \<open>Merging two chains\<close>

lemma store_load:
  "store ptr v head h = (head1, h1) \<Longrightarrow>
   load ptr head1 h1 = v \<and> prv h1 = prv h \<and> val h1 = val h \<and> str h1 = str h \<and>
   live h1 = live h \<and> text_of h1 = text_of h \<and> (ptr \<noteq> LocalHead \<longrightarrow> head1 = head) \<and>
   nxt h1 = (case ptr of LocalHead \<Rightarrow> nxt h | NextOf a \<Rightarrow> (nxt h)(a := v))"
  by (cases ptr) (auto simp: text_of_def)

lemma mergeTwoLists_loop_end:
  "l = NULL \<or> r = NULL \<Longrightarrow>
   mergeTwoLists_loop l r head ptr h =
     Some (snd (store ptr (l OR r) head h), fst (store ptr (l OR r) head h))"
  by (subst mergeTwoLists_loop.simps) (auto simp: case_prod_beta)

lemma mergeTwoLists_loop_left:
  "l \<noteq> NULL \<Longrightarrow> r \<noteq> NULL \<Longrightarrow> strcmp (text_of h l) (text_of h r) < 0 \<Longrightarrow>
   store ptr l head h = (head1, h1) \<Longrightarrow>
   mergeTwoLists_loop l r head ptr h = mergeTwoLists_loop (nxt h1 l) r head1 (NextOf l) h1"
  using store_load [of ptr l head h head1 h1]
  by (subst mergeTwoLists_loop.simps) (simp add: Let_def)

lemma mergeTwoLists_loop_right:
  "l \<noteq> NULL \<Longrightarrow> r \<noteq> NULL \<Longrightarrow> \<not> strcmp (text_of h l) (text_of h r) < 0 \<Longrightarrow>
   store ptr r head h = (head1, h1) \<Longrightarrow>
   mergeTwoLists_loop l r head ptr h = mergeTwoLists_loop l (nxt h1 r) head1 (NextOf r) h1"
  using store_load [of ptr r head h head1 h1]
  by (subst mergeTwoLists_loop.simps) (simp add: Let_def)

lemma mergeTwoLists_loop_chain:
  "\<lbrakk>chain (nxt h) l ls; chain (nxt h) r rs; distinct (ls @ rs); text_of h = t;
    \<forall>a. ptr = NextOf a \<longrightarrow> a \<notin> set (ls @ rs)\<rbrakk> \<Longrightarrow>
   \<exists>h' head'. mergeTwoLists_loop l r head ptr h = Some (h', head') \<and>
      chain (nxt h') (load ptr head' h') (merge_list t ls rs) \<and>
      (ptr \<noteq> LocalHead \<longrightarrow> head' = head) \<and>
      prv h' = prv h \<and> val h' = val h \<and> str h' = str h \<and> live h' = live h \<and>
      (\<forall>a. a \<notin> set (ls @ rs) \<and> ptr \<noteq> NextOf a \<longrightarrow> nxt h' a = nxt h a)"
proof (induction t ls rs arbitrary: l r head ptr h rule: merge_list.induct)
  case (1 t rs)
  then have l: "l = NULL"
    by simp
  obtain head1 h1 where st: "store ptr (l OR r) head h = (head1, h1)"
    by (cases "store ptr (l OR r) head h") auto
  have "chain (nxt h1) (load ptr head1 h1) rs"
    using store_load [OF st] 1 l by (cases ptr) auto
  moreover have "\<forall>a. a \<notin> set rs \<and> ptr \<noteq> NextOf a \<longrightarrow> nxt h1 a = nxt h a"
    using store_load [OF st] by (cases ptr) auto
  ultimately show ?case
    using store_load [OF st] l st by (simp add: mergeTwoLists_loop_end)
next
  case (2 t l0 ls)
  then have r: "r = NULL" and l: "l = l0"
    by simp_all
  obtain head1 h1 where st: "store ptr (l OR r) head h = (head1, h1)"
    by (cases "store ptr (l OR r) head h") auto
  have "chain (nxt h1) (load ptr head1 h1) (l0 # ls)"
    using store_load [OF st] 2 l r by (cases ptr) auto
  moreover have "\<forall>a. a \<notin> set (l0 # ls) \<and> ptr \<noteq> NextOf a \<longrightarrow> nxt h1 a = nxt h a"
    using store_load [OF st] by (cases ptr) auto
  ultimately show ?case
    using store_load [OF st] r st by (simp add: mergeTwoLists_loop_end)
next
  case (3 t l0 ls r0 rs)
  have l: "l = l0" "l0 \<noteq> NULL" and cl: "chain (nxt h) (nxt h l0) ls"
    and r: "r = r0" "r0 \<noteq> NULL" and cr: "chain (nxt h) (nxt h r0) rs"
    using "3.prems" by auto
  have d: "distinct (ls @ r0 # rs)" "distinct ((l0 # ls) @ rs)" "l0 \<notin> set (ls @ r0 # rs)"
    "r0 \<notin> set ((l0 # ls) @ rs)"
    using "3.prems" by auto
  have t: "text_of h = t"
    using "3.prems" by simp
  have p: "\<forall>a. ptr = NextOf a \<longrightarrow> a \<notin> set ((l0 # ls) @ r0 # rs)"
    using "3.prems" by simp
  show ?case
  proof (cases "strcmp (t l0) (t r0) < 0")
    case True
    obtain head1 h1 where st: "store ptr l0 head h = (head1, h1)"
      by (cases "store ptr l0 head h") auto
    note sl = store_load [OF st]
    have n1: "\<forall>a. ptr \<noteq> NextOf a \<longrightarrow> nxt h1 a = nxt h a"
      using sl by (cases ptr) auto
    have n1': "nxt h1 l0 = nxt h l0" "nxt h1 r0 = nxt h r0"
      using n1 p by auto
    have c1: "chain (nxt h1) (nxt h1 l0) ls"
      using sl cl p n1' by (cases ptr) auto
    have c2: "chain (nxt h1) r0 (r0 # rs)"
      using sl cr r p n1' by (cases ptr) auto
    have t1: "text_of h1 = t"
      using sl t by simp
    have "\<forall>a. NextOf l0 = NextOf a \<longrightarrow> a \<notin> set (ls @ r0 # rs)"
      using d by simp
    from "3.IH"(1) [OF True c1 c2 d(1) t1 this, of head1]
    obtain h' head' where ih:
      "mergeTwoLists_loop (nxt h1 l0) r0 head1 (NextOf l0) h1 = Some (h', head') \<and>
       chain (nxt h') (load (NextOf l0) head' h') (merge_list t ls (r0 # rs)) \<and>
       (NextOf l0 \<noteq> LocalHead \<longrightarrow> head' = head1) \<and>
       prv h' = prv h1 \<and> val h' = val h1 \<and> str h' = str h1 \<and> live h' = live h1 \<and>
       (\<forall>a. a \<notin> set (ls @ r0 # rs) \<and> NextOf l0 \<noteq> NextOf a \<longrightarrow> nxt h' a = nxt h1 a)"
      by blast
    have res:
      "mergeTwoLists_loop (nxt h1 l0) r0 head1 (NextOf l0) h1 = Some (h', head')"
      "chain (nxt h') (nxt h' l0) (merge_list t ls (r0 # rs))"
      "head' = head1" "prv h' = prv h" "val h' = val h" "str h' = str h" "live h' = live h"
      "\<forall>a. a \<notin> set (ls @ r0 # rs) \<and> a \<noteq> l0 \<longrightarrow> nxt h' a = nxt h1 a"
      using ih sl by auto
    have run: "mergeTwoLists_loop l r head ptr h = Some (h', head')"
      using mergeTwoLists_loop_left [of l0 r0 h ptr head head1 h1] l r True t st res(1) by simp
    have ld: "load ptr head' h' = l0"
      using sl res(3,8) p by (cases ptr) auto
    have fr: "\<forall>a. a \<notin> set ((l0 # ls) @ r0 # rs) \<and> ptr \<noteq> NextOf a \<longrightarrow> nxt h' a = nxt h a"
      using res(8) n1 by auto
    have "chain (nxt h') (load ptr head' h') (merge_list t (l0 # ls) (r0 # rs))"
      using True ld l res(2) by simp
    then show ?thesis
      using run fr res sl by blast
  next
    case False
    obtain head1 h1 where st: "store ptr r0 head h = (head1, h1)"
      by (cases "store ptr r0 head h") auto
    note sl = store_load [OF st]
    have n1: "\<forall>a. ptr \<noteq> NextOf a \<longrightarrow> nxt h1 a = nxt h a"
      using sl by (cases ptr) auto
    have n1': "nxt h1 l0 = nxt h l0" "nxt h1 r0 = nxt h r0"
      using n1 p by auto
    have c1: "chain (nxt h1) l0 (l0 # ls)"
      using sl cl l p n1' by (cases ptr) auto
    have c2: "chain (nxt h1) (nxt h1 r0) rs"
      using sl cr p n1' by (cases ptr) auto
    have t1: "text_of h1 = t"
      using sl t by simp
    have "\<forall>a. NextOf r0 = NextOf a \<longrightarrow> a \<notin> set ((l0 # ls) @ rs)"
      using d by simp
    from "3.IH"(2) [OF False c1 c2 d(2) t1 this, of head1]
    obtain h' head' where ih:
      "mergeTwoLists_loop l0 (nxt h1 r0) head1 (NextOf r0) h1 = Some (h', head') \<and>
       chain (nxt h') (load (NextOf r0) head' h') (merge_list t (l0 # ls) rs) \<and>
       (NextOf r0 \<noteq> LocalHead \<longrightarrow> head' = head1) \<and>
       prv h' = prv h1 \<and> val h' = val h1 \<and> str h' = str h1 \<and> live h' = live h1 \<and>
       (\<forall>a. a \<notin> set ((l0 # ls) @ rs) \<and> NextOf r0 \<noteq> NextOf a \<longrightarrow> nxt h' a = nxt h1 a)"
      by blast
    have res:
      "mergeTwoLists_loop l0 (nxt h1 r0) head1 (NextOf r0) h1 = Some (h', head')"
      "chain (nxt h') (nxt h' r0) (merge_list t (l0 # ls) rs)"
      "head' = head1" "prv h' = prv h" "val h' = val h" "str h' = str h" "live h' = live h"
      "\<forall>a. a \<notin> set ((l0 # ls) @ rs) \<and> a \<noteq> r0 \<longrightarrow> nxt h' a = nxt h1 a"
      using ih sl by auto
    have run: "mergeTwoLists_loop l r head ptr h = Some (h', head')"
      using mergeTwoLists_loop_right [of l0 r0 h ptr head head1 h1] l r False t st res(1) by simp
    have ld: "load ptr head' h' = r0"
      using sl res(3,8) p by (cases ptr) auto
    have fr: "\<forall>a. a \<notin> set ((l0 # ls) @ r0 # rs) \<and> ptr \<noteq> NextOf a \<longrightarrow> nxt h' a = nxt h a"
      using res(8) n1 by auto
    have "chain (nxt h') (load ptr head' h') (merge_list t (l0 # ls) (r0 # rs))"
      using False ld r res(2) by simp
    then show ?thesis
      using run fr res sl by blast
  qed
qed

subsection \<open>Merge sort of a chain\<close>

lemma chain_frame: "\<forall>a\<in>set xs. n' a = n a \<Longrightarrow> chain n' x xs = chain n x xs"
  by (induction xs arbitrary: x) auto

lemma mset_merge_list: "mset (merge_list t ls rs) = mset ls + mset rs"
  by (induction t ls rs rule: merge_list.induct) auto

lemma msort_list_unfold:
  "2 \<le> length xs \<Longrightarrow>
   msort_list t xs = merge_list t (msort_list t (take (length xs div 2) xs))
                                 (msort_list t (drop (length xs div 2) xs))"
proof (cases xs)
  case Nil
  assume "2 \<le> length xs"
  with Nil show ?thesis by simp
next
  case (Cons a ys)
  assume "2 \<le> length xs"
  with Cons obtain b zs where "ys = b # zs"
    by (cases ys) auto
  with Cons show ?thesis
    by (simp only: msort_list.simps)
qed

lemma mset_msort_list: "mset (msort_list t xs) = mset xs"
proof (induction "length xs" arbitrary: xs rule: less_induct)
  case less
  show ?case
  proof (cases "2 \<le> length xs")
    case True
    let ?k = "length xs div 2"
    have "mset (msort_list t (take ?k xs)) = mset (take ?k xs)"
      "mset (msort_list t (drop ?k xs)) = mset (drop ?k xs)"
      using True by (auto intro!: less.hyps)
    then have "mset (msort_list t xs) = mset (take ?k xs) + mset (drop ?k xs)"
      by (simp add: msort_list_unfold [OF True] mset_merge_list)
    also have "\<dots> = mset (take ?k xs @ drop ?k xs)"
      by (simp only: mset_append)
    finally show ?thesis
      by simp
  next
    case False
    then have "xs = [] \<or> (\<exists>a. xs = [a])"
      by (cases xs; cases "tl xs") auto
    then show ?thesis
      by auto
  qed
qed

lemma set_msort_list: "set (msort_list t xs) = set xs"
  using mset_msort_list [of t xs] by (metis set_mset_mset)

lemma distinct_msort_list: "distinct (msort_list t xs) = distinct xs"
  using mset_msort_list [of t xs] by (metis mset_eq_imp_distinct_iff)

lemma mergesort_small:
  "x = NULL \<or> nxt h x = NULL \<Longrightarrow> mergesort x h = Some (h, x)"
  by (subst mergesort.simps) auto

lemma mergesort_step:
  "\<lbrakk>x \<noteq> NULL; nxt h x \<noteq> NULL; mergesort_split x x h = Some slow;
    mergesort x (h\<lparr>nxt := (nxt h)(prv h slow := NULL)\<rparr>) = Some (h2, left);
    mergesort slow h2 = Some (h3, right)\<rbrakk>
   \<Longrightarrow> mergesort x h = mergeTwoLists left right h3"
  by (subst mergesort.simps) simp

lemma mergesort_chain:
  "\<lbrakk>chain (nxt h) x xs; distinct xs; plinks (prv h) xs; text_of h = t\<rbrakk> \<Longrightarrow>
   \<exists>h' r. mergesort x h = Some (h', r) \<and> chain (nxt h') r (msort_list t xs) \<and>
      prv h' = prv h \<and> val h' = val h \<and> str h' = str h \<and> live h' = live h \<and>
      (\<forall>a. a \<notin> set xs \<longrightarrow> nxt h' a = nxt h a)"
proof (induction "length xs" arbitrary: xs x h rule: less_induct)
  case less
  show ?case
  proof (cases "2 \<le> length xs")
    case False
    then have "xs = [] \<or> (\<exists>a. xs = [a])"
      by (cases xs; cases "tl xs") auto
    then have "x = NULL \<or> nxt h x = NULL" "msort_list t xs = xs"
      using less.prems(1) by auto
    then show ?thesis
      using less.prems(1) by (simp add: mergesort_small)
  next
    case True
    let ?n = "length xs"
    let ?k = "?n div 2"
    let ?ls = "take ?k xs"
    let ?rs = "drop ?k xs"
    let ?c = "last ?ls"
    let ?h1 = "h\<lparr>nxt := (nxt h)(?c := NULL)\<rparr>"
    have k: "0 < ?k" "?k < ?n"
      using True by auto
    have ne: "?ls \<noteq> []" "?rs \<noteq> []"
      using k by auto
    have xs: "xs = ?ls @ ?rs"
      by simp
    have xs': "xs = butlast ?ls @ ?c # ?rs"
      using ne(1) by (metis append_butlast_last_id append_take_drop_id append.assoc append_Cons append_Nil)
    have hdrs: "hd ?rs = xs ! ?k"
      using k by (simp add: hd_drop_conv_nth)
    have x0: "x = xs ! 0" "x \<noteq> NULL" "nxt h x \<noteq> NULL"
      using less.prems(1) True by (cases xs; cases "tl xs"; auto)+
    have "mergesort_split ((xs @ [NULL]) ! 0) ((xs @ [NULL]) ! 0) h =
        Some ((xs @ [NULL]) ! (0 + (?n - 0) div 2))"
      using less.prems(1) by (intro mergesort_split_chain) auto
    moreover have "xs \<noteq> []"
      using k by auto
    ultimately have split: "mergesort_split x x h = Some (xs ! ?k)"
      using x0(1) k by (simp add: nth_append)
    have "plinks (prv h) (?ls @ ?rs)"
      using less.prems(3) by simp
    from plinks_append [OF this] ne
    have pl: "plinks (prv h) ?ls" "plinks (prv h) ?rs" "prv h (hd ?rs) = ?c"
      by auto
    then have pc: "prv h (xs ! ?k) = ?c"
      using hdrs by simp
    have "chain (nxt h) x (butlast ?ls @ ?c # ?rs)" "distinct (butlast ?ls @ ?c # ?rs)"
      using less.prems(1,2) xs' by auto
    from chain_split [OF this]
    have "chain (nxt ?h1) x (butlast ?ls @ [?c])" "chain (nxt ?h1) (hd (?rs @ [NULL])) ?rs"
      by auto
    then have c1: "chain (nxt ?h1) x ?ls" and c2: "chain (nxt ?h1) (xs ! ?k) ?rs"
      using ne hdrs by auto
    have d: "distinct ?ls" "distinct ?rs" "set ?ls \<inter> set ?rs = {}"
      using less.prems(2) xs by (metis distinct_append)+
    have t1: "text_of ?h1 = t"
      using less.prems(4) by (simp add: text_of_def fun_eq_iff)
    have "length ?ls < length xs" "plinks (prv ?h1) ?ls"
      using k pl by auto
    from less.hyps [OF this(1) c1 d(1) this(2) t1]
    obtain h2 left where left:
      "mergesort x ?h1 = Some (h2, left) \<and> chain (nxt h2) left (msort_list t ?ls) \<and>
       prv h2 = prv ?h1 \<and> val h2 = val ?h1 \<and> str h2 = str ?h1 \<and> live h2 = live ?h1 \<and>
       (\<forall>a. a \<notin> set ?ls \<longrightarrow> nxt h2 a = nxt ?h1 a)"
      by blast
    have "\<forall>a\<in>set ?rs. nxt h2 a = nxt ?h1 a"
      using left d(3) by blast
    then have c2': "chain (nxt h2) (xs ! ?k) ?rs"
      using c2 chain_frame by blast
    have t2: "text_of h2 = t"
      using left less.prems(4) by (simp add: text_of_def fun_eq_iff)
    have "length ?rs < length xs" "plinks (prv h2) ?rs"
      using k pl left by auto
    from less.hyps [OF this(1) c2' d(2) this(2) t2]
    obtain h3 right where right:
      "mergesort (xs ! ?k) h2 = Some (h3, right) \<and> chain (nxt h3) right (msort_list t ?rs) \<and>
       prv h3 = prv h2 \<and> val h3 = val h2 \<and> str h3 = str h2 \<and> live h3 = live h2 \<and>
       (\<forall>a. a \<notin> set ?rs \<longrightarrow> nxt h3 a = nxt h2 a)"
      by blast
    have "\<forall>a\<in>set (msort_list t ?ls). nxt h3 a = nxt h2 a"
      using right d(3) by (auto simp: set_msort_list)
    then have c3: "chain (nxt h3) left (msort_list t ?ls)"
      using left chain_frame by blast
    have c4: "chain (nxt h3) right (msort_list t ?rs)"
      using right by simp
    have d3: "distinct (msort_list t ?ls @ msort_list t ?rs)"
      using d by (simp add: distinct_msort_list set_msort_list)
    have t3: "text_of h3 = t"
      using right left less.prems(4) by (simp add: text_of_def fun_eq_iff)
    have "\<forall>a. LocalHead = NextOf a \<longrightarrow> a \<notin> set (msort_list t ?ls @ msort_list t ?rs)"
      by simp
    from mergeTwoLists_loop_chain [OF c3 c4 d3 t3 this, of NULL]
    obtain h4 r where merged:
      "mergeTwoLists_loop left right NULL LocalHead h3 = Some (h4, r) \<and>
       chain (nxt h4) (load LocalHead r h4)
         (merge_list t (msort_list t ?ls) (msort_list t ?rs)) \<and>
       (LocalHead \<noteq> LocalHead \<longrightarrow> r = NULL) \<and>
       prv h4 = prv h3 \<and> val h4 = val h3 \<and> str h4 = str h3 \<and> live h4 = live h3 \<and>
       (\<forall>a. a \<notin> set (msort_list t ?ls @ msort_list t ?rs) \<and> LocalHead \<noteq> NextOf a \<longrightarrow>
            nxt h4 a = nxt h3 a)"
      by blast
    have run: "mergesort x h = Some (h4, r)"
      using mergesort_step [OF x0(2,3) split, of h2 left h3 right] pc left right merged
      by (simp add: mergeTwoLists_def)
    have res: "chain (nxt h4) r (msort_list t xs)"
      using merged by (simp add: msort_list_unfold [OF True])
    have cin: "?c \<in> set xs"
      using ne(1) by (metis in_set_takeD last_in_set)
    have "nxt h4 a = nxt h a" if "a \<notin> set xs" for a
    proof -
      have a: "a \<notin> set ?ls" "a \<notin> set ?rs" "a \<noteq> ?c"
        using that cin by (auto dest: in_set_takeD in_set_dropD)
      then have "nxt h4 a = nxt h3 a"
        using merged by (simp add: set_msort_list)
      also have "\<dots> = nxt h2 a"
        using right a by simp
      also have "\<dots> = nxt ?h1 a"
        using left a by simp
      also have "\<dots> = nxt h a"
        using a by simp
      finally show ?thesis .
    qed
    then show ?thesis
      using run res merged right left by simp
  qed
qed

subsection \<open>From the ring to the chain and back\<close>

lemma chain_last: "chain n a xs \<Longrightarrow> xs \<noteq> [] \<Longrightarrow> n (last xs) = NULL"
  by (induction xs arbitrary: a) auto

lemma dseg_cut:
  "dseg n p a xs b \<Longrightarrow> distinct xs \<Longrightarrow> NULL \<notin> set xs \<Longrightarrow> xs \<noteq> [] \<Longrightarrow>
   chain (n(last xs := NULL)) (n a) xs \<and> plinks p (a # xs)"
proof (induction xs arbitrary: a)
  case Nil
  then show ?case by simp
next
  case (Cons y ys)
  show ?case
  proof (cases "ys = []")
    case True
    then show ?thesis
      using Cons.prems by simp
  next
    case False
    have "dseg n p y ys b" "distinct ys" "NULL \<notin> set ys"
      using Cons.prems by auto
    from Cons.IH [OF this False]
    have ih: "chain (n(last ys := NULL)) (n y) ys" "plinks p (y # ys)"
      by blast+
    have "last ys \<noteq> y"
      using Cons.prems(2) False last_in_set by (metis distinct.simps(2))
    then have "(n(last ys := NULL)) y = n y"
      by simp
    then have "chain (n(last ys := NULL)) y (y # ys)"
      using ih(1) Cons.prems(3) by (simp del: fun_upd_apply)
    moreover have "n a = y" "p y = a"
      using Cons.prems(1) by auto
    ultimately show ?thesis
      using ih(2) False by (simp del: fun_upd_apply)
  qed
qed

lemma chain_close:
  "chain n (n a) ys \<Longrightarrow> plinks p (a # ys) \<Longrightarrow> distinct (a # ys) \<Longrightarrow> b \<notin> set ys \<Longrightarrow>
   ys \<noteq> [] \<Longrightarrow> dseg (n(last ys := b)) (p(b := last ys)) a ys b"
proof (induction ys arbitrary: a)
  case Nil
  then show ?case by simp
next
  case (Cons y ys)
  have y: "n a = y" "p y = a" "y \<noteq> b" "a \<noteq> y"
    using Cons.prems by auto
  show ?case
  proof (cases "ys = []")
    case True
    then show ?thesis
      using y by simp
  next
    case False
    have "chain n (n y) ys" "plinks p (y # ys)" "distinct (y # ys)" "b \<notin> set ys"
      using Cons.prems by auto
    from Cons.IH [OF this False]
    have ih: "dseg (n(last ys := b)) (p(b := last ys)) y ys b" .
    have "last ys \<noteq> a"
      using Cons.prems(3) False last_in_set by (metis distinct.simps(2) list.set_intros(2))
    then have "(n(last ys := b)) a = y" "(p(b := last ys)) y = a"
      using y by simp_all
    then show ?thesis
      using ih False by (simp del: fun_upd_apply)
  qed
qed

lemma q_sort_loop_chain:
  "chain (nxt h) (nxt h (load ptr head h)) zs \<Longrightarrow> distinct zs \<Longrightarrow>
   \<exists>ptr' h'. q_sort_loop head ptr h = Some (ptr', h') \<and>
      load ptr' head h' = last (load ptr head h # zs) \<and> nxt h' = nxt h \<and>
      val h' = val h \<and> str h' = str h \<and> live h' = live h \<and>
      plinks (prv h') (load ptr head h # zs) \<and> (\<forall>a. a \<notin> set zs \<longrightarrow> prv h' a = prv h a)"
proof (induction zs arbitrary: ptr h)
  case Nil
  then show ?case
    by (subst q_sort_loop.simps) simp
next
  case (Cons z zs)
  let ?cur = "load ptr head h"
  let ?h1 = "h\<lparr>prv := (prv h)(nxt h ?cur := ?cur)\<rparr>"
  have z: "nxt h ?cur = z" "z \<noteq> NULL" "z \<notin> set zs" "distinct zs"
    using Cons.prems by auto
  have ld: "load (NextOf ?cur) head ?h1 = z"
    using z by simp
  have "chain (nxt ?h1) (nxt ?h1 (load (NextOf ?cur) head ?h1)) zs"
    using Cons.prems(1) z by simp
  from Cons.IH [OF this z(4)]
  obtain ptr' h' where ih:
    "q_sort_loop head (NextOf ?cur) ?h1 = Some (ptr', h') \<and>
      load ptr' head h' = last (load (NextOf ?cur) head ?h1 # zs) \<and> nxt h' = nxt ?h1 \<and>
      val h' = val ?h1 \<and> str h' = str ?h1 \<and> live h' = live ?h1 \<and>
      plinks (prv h') (load (NextOf ?cur) head ?h1 # zs) \<and>
      (\<forall>a. a \<notin> set zs \<longrightarrow> prv h' a = prv ?h1 a)"
    by blast
  have run: "q_sort_loop head ptr h = Some (ptr', h')"
    using ih z by (subst q_sort_loop.simps) simp
  have "prv h' z = ?cur"
    using ih z by simp
  then have "plinks (prv h') (?cur # z # zs)"
    using ih ld by simp
  moreover have "\<forall>a. a \<notin> set (z # zs) \<longrightarrow> prv h' a = prv h a"
    using ih z by simp
  moreover have "load ptr' head h' = last (?cur # z # zs)"
    using ih ld by simp
  ultimately show ?case
    using run ih by simp
qed

lemma q_sort_small:
  assumes "ring h head xs" "length xs \<le> 1"
  shows "q_sort head h = Some h"
proof (cases xs)
  case Nil
  then have "nxt h head = head"
    using ring_nxt_head [OF assms(1)] by simp
  then show ?thesis
    by (simp add: q_sort_def list_empty_def)
next
  case (Cons a ys)
  then have "xs = [a]"
    using assms(2) by simp
  then have "nxt h head = a" "prv h head = a" "a \<noteq> head"
    using ring_nxt_head [OF assms(1)] ring_prv_head [OF assms(1)] assms(1)
    by (auto simp: ring_def)
  then show ?thesis
    by (simp add: q_sort_def list_empty_def list_is_singular_def)
qed

lemma q_sort_ring:
  assumes r: "ring h head xs" and t: "text_of h = t"
  shows "\<exists>h'. q_sort head h = Some h' \<and> ring h' head (msort_list t xs) \<and>
           val h' = val h \<and> str h' = str h \<and> live h' = live h"
proof (cases "2 \<le> length xs")
  case False
  then have "xs = [] \<or> (\<exists>a. xs = [a])"
    by (cases xs; cases "tl xs") auto
  then have "msort_list t xs = xs"
    by auto
  moreover have "q_sort head h = Some h"
    using q_sort_small [OF r] False by simp
  ultimately show ?thesis
    using r by simp
next
  case True
  let ?ys = "msort_list t xs"
  let ?h1 = "h\<lparr>nxt := (nxt h)(prv h head := NULL)\<rparr>"
  have ne: "xs \<noteq> []"
    using True by auto
  have dx: "distinct xs" "head \<notin> set xs" "NULL \<notin> set xs" "head \<noteq> NULL"
    and seg: "dseg (nxt h) (prv h) head xs head"
    using r by (auto simp: ring_def)
  have nh: "nxt h head = hd xs" and ph: "prv h head = last xs"
    using ring_nxt_head [OF r] ring_prv_head [OF r] ne by auto
  have "hd xs \<noteq> last xs"
    using True dx(1) by (cases xs; cases "tl xs") auto
  moreover have "hd xs \<noteq> head" "last xs \<noteq> head"
    using ne dx(2) hd_in_set last_in_set by metis+
  ultimately have guard: "head \<noteq> NULL" "\<not> list_empty head h" "\<not> list_is_singular head h"
    using nh ph dx(4) by (auto simp: list_empty_def list_is_singular_def)
  from dseg_cut [OF seg dx(1,3) ne]
  have cut: "chain ((nxt h)(last xs := NULL)) (nxt h head) xs" "plinks (prv h) (head # xs)"
    by blast+
  have start: "nxt ?h1 head = hd xs"
    using nh ph \<open>last xs \<noteq> head\<close> by simp
  have c1: "chain (nxt ?h1) (nxt ?h1 head) xs"
    using cut(1) ph start nh by simp
  have p1: "plinks (prv ?h1) xs"
    using cut(2) by (cases xs) auto
  have t1: "text_of ?h1 = t"
    using t by (simp add: text_of_def fun_eq_iff)
  from mergesort_chain [OF c1 dx(1) p1 t1]
  obtain h2 first where ms:
    "mergesort (nxt ?h1 head) ?h1 = Some (h2, first) \<and> chain (nxt h2) first ?ys \<and>
      prv h2 = prv ?h1 \<and> val h2 = val ?h1 \<and> str h2 = str ?h1 \<and> live h2 = live ?h1 \<and>
      (\<forall>a. a \<notin> set xs \<longrightarrow> nxt h2 a = nxt ?h1 a)"
    by blast
  let ?h3 = "h2\<lparr>nxt := (nxt h2)(head := first)\<rparr>"
  have dy: "distinct ?ys" "head \<notin> set ?ys" "NULL \<notin> set ?ys" "?ys \<noteq> []"
    using dx ne by (simp_all add: distinct_msort_list set_msort_list)
      (metis set_msort_list set_empty)
  have c3: "chain (nxt ?h3) (nxt ?h3 (load LocalHead head ?h3)) ?ys"
    using ms dy(2) by simp
  from q_sort_loop_chain [OF c3 dy(1)]
  obtain ptr h4 where lp:
    "q_sort_loop head LocalHead ?h3 = Some (ptr, h4) \<and>
      load ptr head h4 = last (load LocalHead head ?h3 # ?ys) \<and> nxt h4 = nxt ?h3 \<and>
      val h4 = val ?h3 \<and> str h4 = str ?h3 \<and> live h4 = live ?h3 \<and>
      plinks (prv h4) (load LocalHead head ?h3 # ?ys) \<and>
      (\<forall>a. a \<notin> set ?ys \<longrightarrow> prv h4 a = prv ?h3 a)"
    by blast
  let ?h5 = "h4\<lparr>nxt := (nxt h4)(load ptr head h4 := head)\<rparr>"
  let ?h6 = "?h5\<lparr>prv := (prv ?h5)(head := load ptr head ?h5)\<rparr>"
  have l4: "load ptr head h4 = last ?ys"
    using lp dy(4) by simp
  have lastn: "nxt h4 (last ?ys) = NULL" "last ?ys \<noteq> NULL" "last ?ys \<noteq> head"
    using chain_last [OF c3 dy(4)] lp dy last_in_set by (simp, metis, metis)
  have l5: "load ptr head ?h5 = last ?ys"
  proof (cases ptr)
    case LocalHead
    then show ?thesis
      using l4 by simp
  next
    case (NextOf a)
    then have "nxt h4 a = last ?ys"
      using l4 by simp
    then have "a \<noteq> last ?ys"
      using lastn by auto
    then show ?thesis
      using NextOf l4 by simp
  qed
  have run: "q_sort head h = Some ?h6"
    using guard ms lp by (simp add: q_sort_def Let_def)
  have c3': "chain (nxt ?h3) (nxt ?h3 head) ?ys"
    using c3 by simp
  have p4: "plinks (prv h4) (head # ?ys)"
    using lp by simp
  have "distinct (head # ?ys)"
    using dy by simp
  from chain_close [OF c3' p4 this dy(2,4)]
  have "dseg ((nxt ?h3)(last ?ys := head)) ((prv h4)(head := last ?ys)) head ?ys head" .
  moreover have "nxt ?h6 = (nxt ?h3)(last ?ys := head)" "prv ?h6 = (prv h4)(head := last ?ys)"
    using lp l4 l5 by simp_all
  ultimately have "dseg (nxt ?h6) (prv ?h6) head ?ys head"
    by (simp only:)
  then have "ring ?h6 head ?ys"
    using dy dx(4) by (simp add: ring_def)
  moreover have "val ?h6 = val h" "str ?h6 = str h" "live ?h6 = live h"
    using lp ms by simp_all
  ultimately show ?thesis
    using run by blast
qed

subsection \<open>The order of \<open>strcmp\<close>\<close>

lemma strcmp_less: "strcmp a b < 0 \<longleftrightarrow> a < b"
  by (induction a b rule: strcmp.induct) (auto simp: less_char_def)

lemma strcmp_eq: "strcmp a b = 0 \<longleftrightarrow> a = b"
  by (induction a b rule: strcmp.induct) auto

lemma strcmp_le: "strcmp a b \<le> 0 \<longleftrightarrow> a \<le> b"
  using strcmp_less [of a b] strcmp_eq [of a b] by (auto simp: order.order_iff_strict)

lemma ascending_sorted: "ascending ts \<longleftrightarrow> sorted ts"
proof (induction ts rule: ascending.induct)
  case (1 a b xs)
  then show ?case
    by (simp only: ascending.simps strcmp_le sorted2)
qed simp_all

lemma sorted_merge_list:
  "sorted (map t ls) \<Longrightarrow> sorted (map t rs) \<Longrightarrow> sorted (map t (merge_list t ls rs))"
proof (induction t ls rs rule: merge_list.induct)
  case (3 t l ls r rs)
  have set: "set (merge_list t xs ys) = set xs \<union> set ys" for xs ys
    using mset_merge_list [of t xs ys] by (metis set_mset_mset set_mset_union)
  show ?case
  proof (cases "strcmp (t l) (t r) < 0")
    case True
    then have "t l < t r"
      by (simp add: strcmp_less)
    then show ?thesis
      using 3 True by (auto simp: set)
  next
    case False
    then have "t r \<le> t l"
      by (simp add: strcmp_less)
    then show ?thesis
      using 3 False by (auto simp: set)
  qed
qed simp_all

lemma sorted_msort_list: "sorted (map t (msort_list t xs))"
proof (induction "length xs" arbitrary: xs rule: less_induct)
  case less
  show ?case
  proof (cases "2 \<le> length xs")
    case True
    let ?k = "length xs div 2"
    have "sorted (map t (msort_list t (take ?k xs)))" "sorted (map t (msort_list t (drop ?k xs)))"
      using True by (auto intro!: less.hyps)
    then show ?thesis
      by (simp add: msort_list_unfold [OF True] sorted_merge_list)
  next
    case False
    then have "xs = [] \<or> (\<exists>a. xs = [a])"
      by (cases xs; cases "tl xs") auto
    then show ?thesis
      by auto
  qed
qed

subsection \<open>The order of equal texts in a merge\<close>

lemma subseq_pair:
  "subseq [x, y] zs \<longleftrightarrow> (\<exists>us vs ws. zs = us @ x # vs @ y # ws)"
proof
  assume "subseq [x, y] zs"
  from list_emb_ConsD [OF this] obtain us zs' where 1: "zs = us @ x # zs'" "subseq [y] zs'"
    by blast
  then have "y \<in> set zs'"
    by (simp add: subseq_singleton_left)
  then obtain vs ws where "zs' = vs @ y # ws"
    by (auto dest: split_list)
  with 1 show "\<exists>us vs ws. zs = us @ x # vs @ y # ws"
    by blast
next
  assume "\<exists>us vs ws. zs = us @ x # vs @ y # ws"
  then obtain us vs ws where zs: "zs = us @ x # vs @ y # ws"
    by blast
  have "subseq ([] @ x # [] @ y # []) (us @ x # vs @ y # ws)"
    by (intro list_emb_append_mono subseq_Cons2) simp_all
  then show "subseq [x, y] zs"
    by (simp add: zs)
qed

lemma subseq_merge_list:
  "subseq ls (merge_list t ls rs) \<and> subseq rs (merge_list t ls rs)"
proof (induction t ls rs rule: merge_list.induct)
  case (3 t l ls r rs)
  show ?case
  proof (cases "strcmp (t l) (t r) < 0")
    case True
    with 3(1) have "subseq ls (merge_list t ls (r # rs))" "subseq (r # rs) (merge_list t ls (r # rs))"
      by blast+
    then have "subseq (l # ls) (l # merge_list t ls (r # rs)) \<and>
      subseq (r # rs) (l # merge_list t ls (r # rs))"
      using subseq_Cons2 list_emb_Cons by blast
    then show ?thesis
      using True by (simp only: merge_list.simps if_True simp_thms)
  next
    case False
    with 3(2) have "subseq (l # ls) (merge_list t (l # ls) rs)" "subseq rs (merge_list t (l # ls) rs)"
      by blast+
    then have "subseq (l # ls) (r # merge_list t (l # ls) rs) \<and>
      subseq (r # rs) (r # merge_list t (l # ls) rs)"
      using subseq_Cons2 list_emb_Cons by blast
    then show ?thesis
      using False by (simp only: merge_list.simps if_False simp_thms)
  qed
qed simp_all

lemma set_merge_list: "set (merge_list t ls rs) = set ls \<union> set rs"
  using mset_merge_list [of t ls rs] by (metis set_mset_mset set_mset_union)

lemma merge_list_right_first:
  "\<lbrakk>sorted (map t ls); sorted (map t rs); a \<in> set ls; b \<in> set rs; t a = t b\<rbrakk> \<Longrightarrow>
   subseq [b, a] (merge_list t ls rs)"
proof (induction t ls rs rule: merge_list.induct)
  case (3 t l ls r rs)
  show ?case
  proof (cases "strcmp (t l) (t r) < 0")
    case True
    then have lt: "t l < t r"
      by (simp add: strcmp_less)
    have "t r \<le> t b"
      using 3(4,6) by auto
    with lt 3(7) have "a \<noteq> l"
      by auto
    then have "a \<in> set ls"
      using 3(5) by simp
    moreover have "sorted (map t ls)"
      using 3(3) by simp
    ultimately have "subseq [b, a] (merge_list t ls (r # rs))"
      using 3(1) [OF True _ 3(4) _ 3(6,7)] by simp
    then have "subseq [b, a] (l # merge_list t ls (r # rs))"
      by (rule list_emb_Cons)
    then show ?thesis
      using True by (simp only: merge_list.simps if_True)
  next
    case False
    show ?thesis
    proof (cases "b = r")
      case True
      have "a \<in> set (merge_list t (l # ls) rs)"
        using 3(5) unfolding set_merge_list by blast
      then have "subseq [a] (merge_list t (l # ls) rs)"
        by (simp add: subseq_singleton_left)
      then have "subseq [r, a] (r # merge_list t (l # ls) rs)"
        by (rule subseq_Cons2)
      then show ?thesis
        using False True by (simp only: merge_list.simps if_False)
    next
      case nr: False
      then have "b \<in> set rs"
        using 3(6) by simp
      moreover have "sorted (map t rs)"
        using 3(4) by simp
      ultimately have "subseq [b, a] (merge_list t (l # ls) rs)"
        using 3(2) [OF False 3(3) _ 3(5) _ 3(7)] by simp
      then have "subseq [b, a] (r # merge_list t (l # ls) rs)"
        by (rule list_emb_Cons)
      then show ?thesis
        using False by (simp only: merge_list.simps if_False)
    qed
  qed
qed simp_all

lemma msort_list_reverses_ties:
  "subseq [a, b] xs \<Longrightarrow> t a = t b \<Longrightarrow> subseq [b, a] (msort_list t xs)"
proof (induction "length xs" arbitrary: xs rule: less_induct)
  case less
  show ?case
  proof (cases "2 \<le> length xs")
    case False
    then have "xs = [] \<or> (\<exists>c. xs = [c])"
      by (cases xs; cases "tl xs") auto
    with less.prems(1) show ?thesis
      using list_emb_length [of "(=)" "[a, b]" xs] by auto
  next
    case True
    let ?L = "take (length xs div 2) xs" and ?R = "drop (length xs div 2) xs"
    have m: "msort_list t xs = merge_list t (msort_list t ?L) (msort_list t ?R)"
      using True by (rule msort_list_unfold)
    have len: "length ?L < length xs" "length ?R < length xs"
      using True by simp_all
    have "subseq [a, b] (?L @ ?R)"
      using less.prems(1) by simp
    then obtain as bs where ab: "[a, b] = as @ bs" "subseq as ?L" "subseq bs ?R"
      by (rule subseq_appendE)
    have "as = [a, b] \<or> as = [a] \<and> bs = [b] \<or> bs = [a, b]"
    proof (cases as)
      case Nil
      then show ?thesis
        using ab(1) by simp
    next
      case c1: (Cons x as')
      show ?thesis
      proof (cases as')
        case Nil
        with c1 ab(1) show ?thesis
          by simp
      next
        case c2: (Cons y as'')
        with c1 ab(1) show ?thesis
          by simp
      qed
    qed
    then consider "as = [a, b]" | "as = [a]" "bs = [b]" | "bs = [a, b]"
      by blast
    then show ?thesis
    proof cases
      case 1
      then have "subseq [b, a] (msort_list t ?L)"
        using less.hyps [OF len(1) _ less.prems(2)] ab(2) by simp
      then show ?thesis
        unfolding m
        by (rule subseq_order.order_trans [OF _ subseq_merge_list [THEN conjunct1]])
    next
      case 2
      then have "a \<in> set (msort_list t ?L)" "b \<in> set (msort_list t ?R)"
        using ab(2,3) by (simp_all add: subseq_singleton_left set_msort_list)
      then show ?thesis
        unfolding m
        by (intro merge_list_right_first sorted_msort_list less.prems(2))
    next
      case 3
      then have "subseq [b, a] (msort_list t ?R)"
        using less.hyps [OF len(2) _ less.prems(2)] ab(3) by simp
      then show ?thesis
        unfolding m
        by (rule subseq_order.order_trans [OF _ subseq_merge_list [THEN conjunct2]])
    qed
  qed
qed

subsection \<open>Deleting duplicates\<close>

lemma set_drop_adjacent: "set (drop_adjacent t xs) \<subseteq> set xs"
  by (induction t xs rule: drop_adjacent.induct) auto

lemma distinct_drop_adjacent: "distinct xs \<Longrightarrow> distinct (drop_adjacent t xs)"
proof (induction t xs rule: drop_adjacent.induct)
  case (1 t a b xs)
  have "a \<notin> set (drop_adjacent t (b # xs))"
    using set_drop_adjacent [of t "b # xs"] "1.prems" by auto
  then show ?case
    using 1 by simp
qed simp_all

lemma dseg_unique:
  "dseg n p a xs b \<Longrightarrow> dseg n p a ys b \<Longrightarrow> b \<notin> set xs \<Longrightarrow> b \<notin> set ys \<Longrightarrow> xs = ys"
proof (induction xs arbitrary: a ys)
  case Nil
  then show ?case by (cases ys) auto
next
  case (Cons x xs)
  then show ?case by (cases ys) auto
qed

lemma ring_unique: "ring h head xs \<Longrightarrow> ring h head ys \<Longrightarrow> xs = ys"
  unfolding ring_def using dseg_unique by (metis distinct.simps(2))

lemma q_release_element_fields [simp]:
  "nxt (q_release_element e h) = nxt h" "prv (q_release_element e h) = prv h"
  "val (q_release_element e h) = val h" "str (q_release_element e h) = str h"
  "text_of (q_release_element e h) = text_of h"
  by (simp_all add: q_release_element_def free_def text_of_def fun_eq_iff)

lemma live_q_release_element:
  "live (q_release_element e h) = live h - ({e, val h e} - {NULL})"
  by (auto simp: q_release_element_def free_def)

lemma ring_q_release_element [simp]:
  "ring (q_release_element e h) head xs = ring h head xs"
  by (simp add: ring_def)

lemma q_delete_dup_loop_ring:
  "ring h head (ds @ ts) \<Longrightarrow> text_of h = t \<Longrightarrow>
   \<exists>h'. q_delete_dup_loop head (hd (ts @ [head])) (nxt h (hd (ts @ [head]))) h = Some h' \<and>
        ring h' head (ds @ drop_adjacent t ts) \<and> val h' = val h \<and> str h' = str h \<and>
        live h' = live h - ((\<lambda>R. (R \<union> val h ` R) - {NULL}) (set ts - set (drop_adjacent t ts)))"
proof (induction ts arbitrary: ds h rule: induct_list012)
  case (3 a b ts)
  have ne: "a \<noteq> head" "b \<noteq> head" "a \<notin> set (b # ts)"
    using "3.prems" by (auto simp: ring_def)
  have nx: "nxt h a = b"
    using ring_nxt_mid [OF "3.prems"(1)] by simp
  have sub: "set (drop_adjacent t (b # ts)) \<subseteq> set (b # ts)"
    by (rule set_drop_adjacent)
  show ?case
  proof (cases "strcmp (t a) (t b) = 0")
    case True
    let ?h1 = "q_release_element a (list_del_init a h)"
    have r1: "ring ?h1 head (ds @ b # ts)"
      using ring_list_del_init [OF "3.prems"(1)] by simp
    have t1: "text_of ?h1 = t"
      using "3.prems"(2) by simp
    from "3.IH"(2) [OF r1 t1]
    obtain h' where ih:
      "q_delete_dup_loop head (hd ((b # ts) @ [head])) (nxt ?h1 (hd ((b # ts) @ [head]))) ?h1 =
         Some h' \<and> ring h' head (ds @ drop_adjacent t (b # ts)) \<and> val h' = val ?h1 \<and>
       str h' = str ?h1 \<and>
       live h' = live ?h1 -
         ((\<lambda>R. (R \<union> val ?h1 ` R) - {NULL}) (set (b # ts) - set (drop_adjacent t (b # ts))))"
      by blast
    have run: "q_delete_dup_loop head a (nxt h a) h = Some h'"
      using ih ne nx True "3.prems"(2)
      by (subst q_delete_dup_loop.simps) (simp add: Let_def)
    have "set (a # b # ts) - set (drop_adjacent t (b # ts)) =
        insert a (set (b # ts) - set (drop_adjacent t (b # ts)))"
      using ne(3) sub by auto
    then have "live h' = live h -
        ((\<lambda>R. (R \<union> val h ` R) - {NULL}) (set (a # b # ts) - set (drop_adjacent t (a # b # ts))))"
      using ih True by (auto simp: live_q_release_element)
    then show ?thesis
      using run ih True by simp
  next
    case False
    have r1: "ring h head ((ds @ [a]) @ b # ts)"
      using "3.prems"(1) by simp
    from "3.IH"(2) [OF r1 "3.prems"(2)]
    obtain h' where ih:
      "q_delete_dup_loop head (hd ((b # ts) @ [head])) (nxt h (hd ((b # ts) @ [head]))) h =
         Some h' \<and> ring h' head ((ds @ [a]) @ drop_adjacent t (b # ts)) \<and> val h' = val h \<and>
       str h' = str h \<and>
       live h' = live h -
         ((\<lambda>R. (R \<union> val h ` R) - {NULL}) (set (b # ts) - set (drop_adjacent t (b # ts))))"
      by blast
    have run: "q_delete_dup_loop head a (nxt h a) h = Some h'"
      using ih ne nx False "3.prems"(2)
      by (subst q_delete_dup_loop.simps) (simp add: Let_def)
    have "set (a # b # ts) - set (a # drop_adjacent t (b # ts)) =
        set (b # ts) - set (drop_adjacent t (b # ts))"
      using ne(3) sub by auto
    then have "live h' = live h -
        ((\<lambda>R. (R \<union> val h ` R) - {NULL}) (set (a # b # ts) - set (drop_adjacent t (a # b # ts))))"
      using ih False by simp
    then show ?thesis
      using run ih False by simp
  qed
next
  case 1
  then show ?case
    by (subst q_delete_dup_loop.simps) simp
next
  case (2 a)
  have "a \<noteq> head" "nxt h a = head"
    using 2(1) ring_nxt_mid [OF 2(1)] by (auto simp: ring_def)
  then have "q_delete_dup_loop head a (nxt h a) h = Some h"
    by (subst q_delete_dup_loop.simps, simp, subst q_delete_dup_loop.simps, simp)
  then show ?case
    using 2 by simp
qed

subsection \<open>The list algorithms on rings\<close>

lemma ring_head: "ring h head xs \<Longrightarrow> head \<noteq> NULL \<and> (list_empty head h \<longleftrightarrow> xs = [])"
proof -
  assume r: "ring h head xs"
  have "nxt h head = head \<longleftrightarrow> xs = []"
    using ring_nxt_head [OF r] r by (cases xs) (auto simp: ring_def)
  then show ?thesis
    using r by (simp add: ring_def list_empty_def)
qed

lemma q_reverse_ring:
  assumes "ring h head xs"
  shows "\<exists>h'. q_reverse head h = Some h' \<and> ring h' head (rev xs) \<and>
           val h' = val h \<and> str h' = str h \<and> live h' = live h"
proof (cases "xs = []")
  case True
  then show ?thesis
    using assms ring_head [OF assms] by (simp add: q_reverse_def)
next
  case False
  have "ring h head ([] @ xs)"
    using assms by simp
  from q_reverse_loop_ring [OF this]
  obtain h' where "q_reverse_loop head (hd (xs @ [head])) (nxt h (hd (xs @ [head]))) h = Some h'"
    "ring h' head (rev xs)" "val h' = val h" "str h' = str h" "live h' = live h"
    by auto
  then show ?thesis
    using False ring_head [OF assms] ring_nxt_head [OF assms] by (simp add: q_reverse_def)
qed

lemma q_swap_ring:
  assumes "ring h head xs"
  shows "\<exists>h'. q_swap head h = Some h' \<and> ring h' head (swap_pairs xs) \<and>
           val h' = val h \<and> str h' = str h \<and> live h' = live h"
proof -
  have "ring h head ([] @ xs)"
    using assms by simp
  from q_swap_loop_ring [OF this]
  obtain h' where "q_swap_loop head (hd (xs @ [head])) h = Some h'"
    "ring h' head (swap_pairs xs)" "val h' = val h" "str h' = str h" "live h' = live h"
    by auto
  then show ?thesis
    using ring_head [OF assms] ring_nxt_head [OF assms] by (simp add: q_swap_def)
qed

lemma q_size_ring:
  assumes "ring h head xs"
  shows "q_size head h = Some (sint (of_nat (length xs) :: 32 word))"
proof -
  have "q_size_loop head ((xs @ [head]) ! 0) 0 h = Some (0 + of_nat (length xs - 0))"
    using assms by (intro q_size_loop_ring) auto
  moreover have "(xs @ [head]) ! 0 = hd (xs @ [head])"
    by (simp add: hd_conv_nth)
  ultimately show ?thesis
    using ring_head [OF assms] ring_nxt_head [OF assms] by (simp add: q_size_def)
qed

lemma q_delete_mid_unlink_ring:
  assumes "ring h head xs" "xs \<noteq> []"
  shows "q_delete_mid_unlink head h =
           Some (list_del_init (xs ! (length xs div 2)) h, xs ! (length xs div 2)) \<and>
         ring (list_del_init (xs ! (length xs div 2)) h) head
           (take (length xs div 2) xs @ drop (Suc (length xs div 2)) xs)"
proof -
  let ?k = "length xs div 2"
  have k: "?k < length xs"
    using assms(2) by simp
  have "q_delete_mid_loop head ((xs @ [head]) ! 0) ((xs @ [head]) ! 0) h =
      Some ((xs @ [head]) ! (0 + (length xs - 0) div 2))"
    using assms(1) by (intro q_delete_mid_loop_ring) auto
  moreover have "(xs @ [head]) ! 0 = hd (xs @ [head])"
    by (simp add: hd_conv_nth)
  ultimately have "q_delete_mid_loop head (nxt h head) (nxt h head) h = Some (xs ! ?k)"
    using ring_nxt_head [OF assms(1)] k by (simp add: nth_append)
  moreover have "ring h head (take ?k xs @ xs ! ?k # drop (Suc ?k) xs)"
    using assms(1) k by (simp add: id_take_nth_drop [symmetric])
  ultimately show ?thesis
    using ring_list_del_init by (simp add: q_delete_mid_unlink_def)
qed

lemma q_delete_mid_ring:
  assumes "ring h head xs" "xs \<noteq> []"
  shows "\<exists>h'. q_delete_mid head h = Some (h', True) \<and>
           ring h' head (take (length xs div 2) xs @ drop (Suc (length xs div 2)) xs) \<and>
           val h' = val h \<and> str h' = str h \<and>
           live h' = live h -
             ({xs ! (length xs div 2), val h (xs ! (length xs div 2))} - {NULL})"
  using q_delete_mid_unlink_ring [OF assms] ring_head [OF assms(1)] assms(2)
  by (simp add: q_delete_mid_def live_q_release_element)

lemma q_delete_mid_empty:
  "head = NULL \<or> ring h head [] \<Longrightarrow> q_delete_mid head h = Some (h, False)"
  using ring_head [of h head "[]"] by (auto simp: q_delete_mid_def)

lemma q_delete_dup_ring:
  assumes "ring h head xs" "text_of h = t"
  shows "\<exists>h'. q_delete_dup head h = Some (h', True) \<and>
           ring h' head (drop_adjacent t (msort_list t xs)) \<and>
           val h' = val h \<and> str h' = str h \<and>
           live h' = live h -
             ((\<lambda>R. (R \<union> val h ` R) - {NULL}) (set xs - set (drop_adjacent t (msort_list t xs))))"
proof -
  let ?ys = "msort_list t xs"
  from q_sort_ring [OF assms]
  obtain h1 where s: "q_sort head h = Some h1" "ring h1 head ?ys" "val h1 = val h"
    "str h1 = str h" "live h1 = live h"
    by auto
  have t1: "text_of h1 = t"
    using s assms(2) by (simp add: text_of_def fun_eq_iff)
  have "ring h1 head ([] @ ?ys)"
    using s by simp
  from q_delete_dup_loop_ring [OF this t1]
  obtain h' where d:
    "q_delete_dup_loop head (hd (?ys @ [head])) (nxt h1 (hd (?ys @ [head]))) h1 = Some h'"
    "ring h' head (drop_adjacent t ?ys)" "val h' = val h1" "str h' = str h1"
    "live h' = live h1 - ((\<lambda>R. (R \<union> val h1 ` R) - {NULL}) (set ?ys - set (drop_adjacent t ?ys)))"
    by auto
  show ?thesis
    using s d ring_head [OF assms(1)] ring_nxt_head [OF s(2)]
    by (simp add: q_delete_dup_def set_msort_list)
qed

subsection \<open>Ownership\<close>

lemma ownsI:
  "\<lbrakk>head \<in> live h; \<And>x. x \<in> set xs \<Longrightarrow> x \<in> live h \<and> val h x \<in> live h \<and> val h x \<noteq> NULL \<and>
       val h x \<noteq> head \<and> val h x \<notin> set xs;
    \<And>x y. x \<in> set xs \<Longrightarrow> y \<in> set xs \<Longrightarrow> val h x = val h y \<Longrightarrow> x = y\<rbrakk>
   \<Longrightarrow> owns h head xs"
  unfolding owns_def by simp

lemma ownsD:
  assumes "owns h head xs"
  shows "head \<in> live h"
    and "x \<in> set xs \<Longrightarrow> x \<in> live h \<and> val h x \<in> live h \<and> val h x \<noteq> NULL \<and>
       val h x \<noteq> head \<and> val h x \<notin> set xs"
    and "x \<in> set xs \<Longrightarrow> y \<in> set xs \<Longrightarrow> val h x = val h y \<Longrightarrow> x = y"
  using assms unfolding owns_def by simp_all

lemma owns_remove:
  assumes "owns h head xs" "set ys \<subseteq> set xs" "val h' = val h" "live h' = live h"
  shows "owns h' head ys"
proof (rule ownsI)
  show "head \<in> live h'"
    using ownsD(1) [OF assms(1)] assms(4) by simp
next
  fix x assume "x \<in> set ys"
  then have "x \<in> set xs"
    using assms(2) by blast
  from ownsD(2) [OF assms(1) this]
  show "x \<in> live h' \<and> val h' x \<in> live h' \<and> val h' x \<noteq> NULL \<and> val h' x \<noteq> head \<and>
      val h' x \<notin> set ys"
    using assms(2,3,4) by auto
next
  fix x y assume "x \<in> set ys" "y \<in> set ys" "val h' x = val h' y"
  then show "x = y"
    using ownsD(3) [OF assms(1), of x y] assms(2,3) by auto
qed

lemma owns_perm:
  "owns h head xs \<Longrightarrow> set ys = set xs \<Longrightarrow> val h' = val h \<Longrightarrow> live h' = live h \<Longrightarrow>
   owns h' head ys"
  by (rule owns_remove) auto

lemma owns_delete:
  assumes "owns h head xs" "set ys \<subseteq> set xs" "val h' = val h" "head \<notin> set xs"
    "live h' = live h - ((set xs - set ys \<union> val h ` (set xs - set ys)) - {NULL})"
  shows "owns h' head ys"
proof (rule ownsI)
  have "head \<notin> val h ` (set xs - set ys)"
    using ownsD(2) [OF assms(1)] by blast
  then show "head \<in> live h'"
    using ownsD(1) [OF assms(1)] assms(4,5) by simp
next
  fix x assume x: "x \<in> set ys"
  then have xs: "x \<in> set xs"
    using assms(2) by blast
  note ox = ownsD(2) [OF assms(1) xs]
  have "x \<notin> val h ` (set xs - set ys)"
    using ownsD(2) [OF assms(1)] xs by blast
  then have 1: "x \<in> live h'"
    using ox x assms(5) by simp
  have "val h x \<notin> val h ` (set xs - set ys)"
    using ownsD(3) [OF assms(1), of x] x xs by blast
  then have 2: "val h' x \<in> live h'"
    using ox assms(3,5) by simp
  show "x \<in> live h' \<and> val h' x \<in> live h' \<and> val h' x \<noteq> NULL \<and> val h' x \<noteq> head \<and>
      val h' x \<notin> set ys"
    using 1 2 ox assms(2,3) by auto
next
  fix x y assume "x \<in> set ys" "y \<in> set ys" "val h' x = val h' y"
  then show "x = y"
    using ownsD(3) [OF assms(1), of x y] assms(2,3) by auto
qed

lemma owns_insert:
  assumes "owns h head xs" "q \<notin> live h" "p \<notin> live h" "p \<noteq> q" "p \<noteq> NULL"
    "val h' = (val h)(q := p)" "live h' = insert p (insert q (live h))" "set ys = insert q (set xs)"
  shows "owns h' head ys"
proof (rule ownsI)
  show "head \<in> live h'"
    using ownsD(1) [OF assms(1)] assms(7) by simp
next
  fix x assume "x \<in> set ys"
  then consider "x = q" | "x \<in> set xs" "x \<noteq> q"
    using assms(8) by auto
  then show "x \<in> live h' \<and> val h' x \<in> live h' \<and> val h' x \<noteq> NULL \<and> val h' x \<noteq> head \<and>
      val h' x \<notin> set ys"
  proof cases
    case 1
    have "p \<noteq> head" "p \<notin> set xs"
      using ownsD(1,2) [OF assms(1)] assms(3) by auto
    then show ?thesis
      using 1 assms(4,5,6,7,8) by simp
  next
    case 2
    from ownsD(2) [OF assms(1) 2(1)] have "val h x \<noteq> q"
      using assms(2) by auto
    with ownsD(2) [OF assms(1) 2(1)] show ?thesis
      using 2 assms(6,7,8) by simp
  qed
next
  fix x y assume xy: "x \<in> set ys" "y \<in> set ys" "val h' x = val h' y"
  have np: "val h z \<noteq> p" if "z \<in> set xs" for z
    using ownsD(2) [OF assms(1) that] assms(3) by auto
  have nq: "q \<notin> set xs"
    using ownsD(2) [OF assms(1), of q] assms(2) by auto
  show "x = y"
  proof (cases "x = q")
    case True
    then show ?thesis
      using xy np [of y] assms(6,8) by (cases "y = q") auto
  next
    case False
    then have "x \<in> set xs"
      using xy assms(8) by auto
    then show ?thesis
      using xy np [of x] False nq ownsD(3) [OF assms(1), of x y] assms(6,8)
      by (cases "y = q") auto
  qed
qed

subsection \<open>Insertion, removal and creation\<close>

lemma q_insert_head_ring:
  assumes "ring h head xs" "q \<noteq> NULL" "q \<notin> set (head # xs)" "p \<noteq> NULL"
  shows "\<exists>h'. q_insert_head head (Some cs) (Some q) (Some p) h = Inr (h', True) \<and>
           ring h' head (q # xs) \<and> val h' = (val h)(q := p) \<and> str h' = (str h)(p := cs) \<and>
           live h' = insert p (insert q (live h))"
proof -
  let ?h3 = "h\<lparr>live := insert p (insert q (live h)), str := (str h)(p := cs),
               val := (val h)(q := p)\<rparr>"
  have "ring ?h3 head ([] @ xs)"
    using assms(1) by (simp add: ring_def)
  from ring_list_add [OF this] assms
  have "ring (list_add q head ?h3) head (q # xs)"
    by simp
  then show ?thesis
    using assms ring_head [OF assms(1)]
    by (simp add: q_insert_head_def malloc_def strdup_def)
qed

lemma q_insert_tail_ring:
  assumes "ring h head xs" "q \<noteq> NULL" "q \<notin> set (head # xs)" "p \<noteq> NULL"
  shows "\<exists>h'. q_insert_tail head (Some cs) (Some q) (Some p) h = Inr (h', True) \<and>
           ring h' head (xs @ [q]) \<and> val h' = (val h)(q := p) \<and> str h' = (str h)(p := cs) \<and>
           live h' = insert p (insert q (live h))"
proof -
  let ?h3 = "h\<lparr>live := insert p (insert q (live h)), str := (str h)(p := cs),
               val := (val h)(q := p)\<rparr>"
  have "ring ?h3 head xs"
    using assms(1) by (simp add: ring_def)
  from ring_list_add_tail [OF this] assms
  have "ring (list_add_tail q head ?h3) head (xs @ [q])"
    by simp
  then show ?thesis
    using assms ring_head [OF assms(1)]
    by (simp add: q_insert_tail_def malloc_def strdup_def)
qed

lemma q_insert_null_queue:
  "q_insert_head NULL s r_node r_str h = Inr (h, False)"
  "q_insert_tail NULL s r_node r_str h = Inr (h, False)"
  by (simp_all add: q_insert_head_def q_insert_tail_def)

lemma q_insert_no_node:
  "q_insert_head head s None r_str h = Inr (h, False)"
  "q_insert_tail head s None r_str h = Inr (h, False)"
  by (simp_all add: q_insert_head_def q_insert_tail_def malloc_def)

lemma q_insert_no_string:
  assumes "head \<noteq> NULL" "q \<noteq> NULL" "q \<notin> live h"
  shows "\<exists>h'. q_insert_head head (Some cs) (Some q) None h = Inr (h', False) \<and>
           q_insert_tail head (Some cs) (Some q) None h = Inr (h', False) \<and>
           nxt h' = nxt h \<and> prv h' = prv h \<and> str h' = str h \<and> live h' = live h \<and>
           (\<forall>a. a \<noteq> q \<longrightarrow> val h' a = val h a)"
  using assms
  by (simp add: q_insert_head_def q_insert_tail_def malloc_def strdup_def
      q_release_element_def free_def)

lemma q_insert_null_text:
  assumes "head \<noteq> NULL" "q \<noteq> NULL"
  shows "q_insert_head head None (Some q) r_str h = Inl NullDeref"
    "q_insert_tail head None (Some q) r_str h = Inl NullDeref"
  using assms by (simp_all add: q_insert_head_def q_insert_tail_def malloc_def strdup_def)

lemma list_del_init_self:
  "nxt (list_del_init x h) x = x \<and> prv (list_del_init x h) x = x"
  by (simp add: list_del_init_def INIT_LIST_HEAD_def)

lemma q_new_ring:
  "a \<noteq> NULL \<Longrightarrow> \<exists>h'. q_new (Some a) h = (h', a) \<and> ring h' a [] \<and> val h' = val h \<and>
     str h' = str h \<and> live h' = insert a (live h)"
  by (simp add: q_new_def malloc_def INIT_LIST_HEAD_def ring_def)

lemma q_new_fail: "q_new None h = (h, NULL)"
  by (simp add: q_new_def malloc_def)

subsection \<open>Copying the removed text\<close>

lemma store_after:
  "length w = n \<Longrightarrow> n < length buf \<Longrightarrow>
   store_byte (w @ drop n buf) n c = Inr (w @ c # drop (Suc n) buf)"
proof -
  assume w: "length w = n" and n: "n < length buf"
  have "drop n buf = buf ! n # drop (Suc n) buf"
    using n by (simp add: Cons_nth_drop_Suc)
  then have "(w @ drop n buf)[n := c] = w @ c # drop (Suc n) buf"
    using w by (simp add: list_update_append)
  then show ?thesis
    using w n by (simp add: store_byte_def)
qed

lemma copy_out_fits:
  assumes "bufsize \<noteq> 0" "unat bufsize \<le> length buf"
  shows "copy_out buf v bufsize =
    Inr (take (unat bufsize - 1) v @ replicate (unat bufsize - 1 - length v) (CHR 0x00) @
         CHR 0x00 # drop (unat bufsize) buf)"
proof -
  define n where "n = unat bufsize - 1"
  define w where "w = take n v @ replicate (n - length v) (CHR 0x00)"
  have n: "unat (bufsize - 1) = n"
    using assms(1) by (simp add: unat_minus_one n_def)
  have pos: "0 < unat bufsize"
    using assms(1) by (simp add: unat_gt_0)
  then have lt: "n < length buf" and suc: "Suc n = unat bufsize"
    using assms(2) by (simp_all add: n_def)
  have len: "length w = n"
    by (auto simp: w_def)
  have cp: "strncpy buf v n = Inr (w @ drop n buf)"
    using lt by (simp add: strncpy_def w_def)
  have "copy_out buf v bufsize = Inr (w @ CHR 0x00 # drop (Suc n) buf)"
    unfolding copy_out_def n cp using store_after [OF len lt] by simp
  then show ?thesis
    unfolding suc by (simp add: w_def n_def)
qed

lemma copy_out_zero:
  assumes "length buf < 2 ^ 64 - 1"
  shows "copy_out buf v 0 = Inl OutOfBounds"
proof -
  have "unat (0 - 1 :: 64 word) = 2 ^ 64 - 1"
    by (simp add: unsigned_minus_1_eq_mask mask_eq_exp_minus_1)
  then show ?thesis
    using assms by (simp add: copy_out_def strncpy_def)
qed

subsection \<open>Removal\<close>

lemma q_remove_head_ring:
  assumes "ring h head xs" "xs \<noteq> []"
  shows "q_remove_head head sp bufsize h =
      (case sp of
         None \<Rightarrow> Inr (list_del_init (hd xs) h, hd xs, None)
       | Some buf \<Rightarrow>
           (case copy_out buf (text_of h (hd xs)) bufsize of
              Inl f \<Rightarrow> Inl f
            | Inr buf1 \<Rightarrow> Inr (list_del_init (hd xs) h, hd xs, Some buf1)))"
    and "ring (list_del_init (hd xs) h) head (tl xs)"
proof -
  have "nxt h head = hd xs"
    using ring_nxt_head [OF assms(1)] assms(2) by simp
  then show "q_remove_head head sp bufsize h =
      (case sp of
         None \<Rightarrow> Inr (list_del_init (hd xs) h, hd xs, None)
       | Some buf \<Rightarrow>
           (case copy_out buf (text_of h (hd xs)) bufsize of
              Inl f \<Rightarrow> Inl f
            | Inr buf1 \<Rightarrow> Inr (list_del_init (hd xs) h, hd xs, Some buf1)))"
    using ring_head [OF assms(1)] assms(2)
    by (simp add: q_remove_head_def Let_def split: option.splits)
  have "ring h head ([] @ hd xs # tl xs)"
    using assms by simp
  from ring_list_del_init [OF this] show "ring (list_del_init (hd xs) h) head (tl xs)"
    by simp
qed

lemma q_remove_tail_ring:
  assumes "ring h head xs" "xs \<noteq> []"
  shows "q_remove_tail head sp bufsize h =
      (case sp of
         None \<Rightarrow> Inr (list_del_init (last xs) h, last xs, None)
       | Some buf \<Rightarrow>
           (case copy_out buf (text_of h (last xs)) bufsize of
              Inl f \<Rightarrow> Inl f
            | Inr buf1 \<Rightarrow> Inr (list_del_init (last xs) h, last xs, Some buf1)))"
    and "ring (list_del_init (last xs) h) head (butlast xs)"
proof -
  have "prv h head = last xs"
    using ring_prv_head [OF assms(1)] assms(2) by simp
  then show "q_remove_tail head sp bufsize h =
      (case sp of
         None \<Rightarrow> Inr (list_del_init (last xs) h, last xs, None)
       | Some buf \<Rightarrow>
           (case copy_out buf (text_of h (last xs)) bufsize of
              Inl f \<Rightarrow> Inl f
            | Inr buf1 \<Rightarrow> Inr (list_del_init (last xs) h, last xs, Some buf1)))"
    using ring_head [OF assms(1)] assms(2)
    by (simp add: q_remove_tail_def Let_def split: option.splits)
  have "ring h head (butlast xs @ last xs # [])"
    using assms by simp
  from ring_list_del_init [OF this] show "ring (list_del_init (last xs) h) head (butlast xs)"
    by simp
qed

lemma q_remove_nothing:
  assumes "head = NULL \<or> ring h head []"
  shows "q_remove_head head sp bufsize h = Inr (h, NULL, sp)"
    "q_remove_tail head sp bufsize h = Inr (h, NULL, sp)"
  using assms ring_head [of h head "[]"]
  by (auto simp: q_remove_head_def q_remove_tail_def)

subsection \<open>Traversal and construction\<close>

lemma q_elements_loop_ring:
  "ring h head (ds @ ts) \<Longrightarrow> q_elements_loop head (hd (ts @ [head])) ds h = Some (ds @ ts)"
proof (induction ts arbitrary: ds)
  case Nil
  then show ?case
    by (subst q_elements_loop.simps) simp
next
  case (Cons t ts)
  have "t \<noteq> head" "nxt h t = hd (ts @ [head])"
    using Cons.prems ring_nxt_mid [OF Cons.prems] by (auto simp: ring_def)
  moreover have "q_elements_loop head (hd (ts @ [head])) (ds @ [t]) h = Some ((ds @ [t]) @ ts)"
    using Cons.prems by (intro Cons.IH) simp
  ultimately show ?case
    by (subst q_elements_loop.simps) simp
qed

lemma q_elements_ring: "ring h head xs \<Longrightarrow> q_elements head h = Some xs"
  using q_elements_loop_ring [of h head "[]" xs] ring_nxt_head [of h head xs]
  by (simp add: q_elements_def)

lemma q_texts_ring: "ring h head xs \<Longrightarrow> q_texts head h = Some (texts h xs)"
  by (simp add: q_texts_def q_elements_ring)

lemma texts_cong:
  "val h' = val h \<Longrightarrow> str h' = str h \<Longrightarrow> texts h' xs = texts h xs"
  by (simp add: texts_def text_of_def)

lemma text_of_cong:
  "val h' = val h \<Longrightarrow> str h' = str h \<Longrightarrow> text_of h' = text_of h"
  by (simp add: text_of_def fun_eq_iff)

lemma q_insert_tail_queue:
  assumes "queue h head xs" "q \<noteq> NULL" "q \<notin> live h" "p \<noteq> NULL" "p \<notin> live h" "p \<noteq> q"
  shows "\<exists>h'. q_insert_tail head (Some cs) (Some q) (Some p) h = Inr (h', True) \<and>
           queue h' head (xs @ [q]) \<and> texts h' (xs @ [q]) = texts h xs @ [cs] \<and>
           live h' = insert p (insert q (live h)) \<and> val h' = (val h)(q := p)"
proof -
  have r: "ring h head xs" and o: "owns h head xs"
    using assms(1) by (simp_all add: queue_def)
  have "q \<notin> set (head # xs)"
    using ownsD(1,2) [OF o] assms(3) by auto
  from q_insert_tail_ring [OF r assms(2) this assms(4), of cs]
  obtain h' where h': "q_insert_tail head (Some cs) (Some q) (Some p) h = Inr (h', True)"
    "ring h' head (xs @ [q])" "val h' = (val h)(q := p)" "str h' = (str h)(p := cs)"
    "live h' = insert p (insert q (live h))"
    by blast
  have "owns h' head (xs @ [q])"
    using owns_insert [OF o assms(3,5,6,4) h'(3,5)] by simp
  moreover have "text_of h' x = text_of h x" if "x \<in> set xs" for x
    using ownsD(2) [OF o that] assms(3,5) h'(3,4) by (auto simp: text_of_def)
  then have "texts h' xs = texts h xs"
    by (simp add: texts_def)
  moreover have "text_of h' q = cs"
    using h'(3,4) by (simp add: text_of_def)
  ultimately show ?thesis
    using h' by (simp add: queue_def texts_def)
qed

lemma q_insert_head_queue:
  assumes "queue h head xs" "q \<noteq> NULL" "q \<notin> live h" "p \<noteq> NULL" "p \<notin> live h" "p \<noteq> q"
  shows "\<exists>h'. q_insert_head head (Some cs) (Some q) (Some p) h = Inr (h', True) \<and>
           queue h' head (q # xs) \<and> texts h' (q # xs) = cs # texts h xs \<and>
           live h' = insert p (insert q (live h))"
proof -
  have r: "ring h head xs" and o: "owns h head xs"
    using assms(1) by (simp_all add: queue_def)
  have "q \<notin> set (head # xs)"
    using ownsD(1,2) [OF o] assms(3) by auto
  from q_insert_head_ring [OF r assms(2) this assms(4), of cs]
  obtain h' where h': "q_insert_head head (Some cs) (Some q) (Some p) h = Inr (h', True)"
    "ring h' head (q # xs)" "val h' = (val h)(q := p)" "str h' = (str h)(p := cs)"
    "live h' = insert p (insert q (live h))"
    by blast
  have "owns h' head (q # xs)"
    using owns_insert [OF o assms(3,5,6,4) h'(3,5)] by simp
  moreover have "text_of h' x = text_of h x" if "x \<in> set xs" for x
    using ownsD(2) [OF o that] assms(3,5) h'(3,4) by (auto simp: text_of_def)
  then have "texts h' xs = texts h xs"
    by (simp add: texts_def)
  moreover have "text_of h' q = cs"
    using h'(3,4) by (simp add: text_of_def)
  ultimately show ?thesis
    using h' by (simp add: queue_def texts_def)
qed

lemma q_build_tail_queue:
  "\<lbrakk>queue h head xs; distinct (map fst cells @ map (\<lambda>c. fst (snd c)) cells);
    NULL \<notin> set (map fst cells @ map (\<lambda>c. fst (snd c)) cells);
    set (map fst cells @ map (\<lambda>c. fst (snd c)) cells) \<inter> live h = {}\<rbrakk> \<Longrightarrow>
   queue (q_build_tail head cells h) head (xs @ map fst cells) \<and>
   texts (q_build_tail head cells h) (xs @ map fst cells) = texts h xs @ map (\<lambda>c. snd (snd c)) cells \<and>
   live (q_build_tail head cells h) = live h \<union> set (map fst cells @ map (\<lambda>c. fst (snd c)) cells) \<and>
   (\<forall>a. val (q_build_tail head cells h) a =
      (case map_of (map (\<lambda>c. (fst c, fst (snd c))) cells) a of None \<Rightarrow> val h a | Some p \<Rightarrow> p))"
proof (induction cells arbitrary: h xs)
  case Nil
  then show ?case by simp
next
  case (Cons c cells)
  obtain q p s where c: "c = (q, p, s)"
    by (cases c) auto
  have f: "q \<noteq> NULL" "q \<notin> live h" "p \<noteq> NULL" "p \<notin> live h" "p \<noteq> q"
    using Cons.prems(2,3,4) c by auto
  from q_insert_tail_queue [OF Cons.prems(1) f, of s]
  obtain h1 where h1: "q_insert_tail head (Some s) (Some q) (Some p) h = Inr (h1, True)"
    "queue h1 head (xs @ [q])" "texts h1 (xs @ [q]) = texts h xs @ [s]"
    "live h1 = insert p (insert q (live h))" "val h1 = (val h)(q := p)"
    by blast
  have "distinct (map fst cells @ map (\<lambda>c. fst (snd c)) cells)"
    "NULL \<notin> set (map fst cells @ map (\<lambda>c. fst (snd c)) cells)"
    "set (map fst cells @ map (\<lambda>c. fst (snd c)) cells) \<inter> live h1 = {}"
    using Cons.prems(2,3,4) c h1(4) by auto
  note ih = Cons.IH [OF h1(2) this]
  have "q \<notin> fst ` set (map (\<lambda>c. (fst c, fst (snd c))) cells)"
    using Cons.prems(2) c by (auto simp: image_iff)
  then have "map_of (map (\<lambda>c. (fst c, fst (snd c))) cells) q = None"
    by (simp add: map_of_eq_None_iff)
  then have "\<forall>a. val (q_build_tail head cells h1) a =
      (case map_of (map (\<lambda>c. (fst c, fst (snd c))) (c # cells)) a of
         None \<Rightarrow> val h a | Some p \<Rightarrow> p)"
    using ih h1(5) c by (auto split: option.splits)
  then show ?case
    using ih h1(1,3,4) c by auto
qed

lemma q_build_queue:
  assumes "distinct (head # map fst cells @ map (\<lambda>c. fst (snd c)) cells)"
    "NULL \<notin> set (head # map fst cells @ map (\<lambda>c. fst (snd c)) cells)"
  shows "queue (q_build head cells) head (map fst cells)"
    and "texts (q_build head cells) (map fst cells) = map (\<lambda>c. snd (snd c)) cells"
    and "live (q_build head cells) = set (head # map fst cells @ map (\<lambda>c. fst (snd c)) cells)"
    and "val (q_build head cells) a =
      (case map_of (map (\<lambda>c. (fst c, fst (snd c))) cells) a of None \<Rightarrow> NULL | Some p \<Rightarrow> p)"
proof -
  obtain h0 where h0: "q_new (Some head) empty_heap = (h0, head)" "ring h0 head []"
    "live h0 = insert head (live empty_heap)" "val h0 = val empty_heap"
    using q_new_ring [of head empty_heap] assms(2) by auto
  have q0: "queue h0 head []"
    using h0 by (simp add: queue_def owns_def)
  have "distinct (map fst cells @ map (\<lambda>c. fst (snd c)) cells)"
    "NULL \<notin> set (map fst cells @ map (\<lambda>c. fst (snd c)) cells)"
    "set (map fst cells @ map (\<lambda>c. fst (snd c)) cells) \<inter> live h0 = {}"
    using assms h0(3) by (auto simp: empty_heap_def)
  from q_build_tail_queue [OF q0 this]
  show "queue (q_build head cells) head (map fst cells)"
    and "texts (q_build head cells) (map fst cells) = map (\<lambda>c. snd (snd c)) cells"
    and "live (q_build head cells) = set (head # map fst cells @ map (\<lambda>c. fst (snd c)) cells)"
    and "val (q_build head cells) a =
      (case map_of (map (\<lambda>c. (fst c, fst (snd c))) cells) a of None \<Rightarrow> NULL | Some p \<Rightarrow> p)"
    using h0(1,3,4) by (simp_all add: q_build_def texts_def empty_heap_def split: option.splits)
qed

lemma queue_frame:
  "\<lbrakk>queue h head xs; nxt h' = nxt h; prv h' = prv h; live h' = live h;
    \<forall>x\<in>set xs. val h' x = val h x\<rbrakk> \<Longrightarrow> queue h' head xs"
  by (simp add: queue_def ring_def owns_def)

lemma mergeTwoLists_chain:
  assumes "chain (nxt h) l ls" "chain (nxt h) r rs" "distinct (ls @ rs)"
  shows "\<exists>h' first. mergeTwoLists l r h = Some (h', first) \<and>
           chain (nxt h') first (merge_list (text_of h) ls rs) \<and> prv h' = prv h \<and>
           val h' = val h \<and> str h' = str h \<and> live h' = live h"
proof -
  have "\<forall>a. LocalHead = NextOf a \<longrightarrow> a \<notin> set (ls @ rs)"
    by simp
  from mergeTwoLists_loop_chain [OF assms refl this, of NULL] show ?thesis
    unfolding mergeTwoLists_def by fastforce
qed

lemma q_delete_mid_texts:
  assumes "ring h head xs" "xs \<noteq> []"
  shows "\<exists>h'. q_delete_mid head h = Some (h', True) \<and>
           ring h' head (take (length xs div 2) xs @ drop (Suc (length xs div 2)) xs) \<and>
           texts h' (take (length xs div 2) xs @ drop (Suc (length xs div 2)) xs) =
             take (length xs div 2) (texts h xs) @ drop (Suc (length xs div 2)) (texts h xs) \<and>
           q_texts head h' =
             Some (take (length xs div 2) (texts h xs) @ drop (Suc (length xs div 2)) (texts h xs))"
proof -
  let ?zs = "take (length xs div 2) xs @ drop (Suc (length xs div 2)) xs"
  from q_delete_mid_ring [OF assms] obtain h' where h': "q_delete_mid head h = Some (h', True)"
    "ring h' head ?zs" "val h' = val h" "str h' = str h"
    by blast
  have "texts h' ?zs = texts h ?zs"
    using h'(3,4) by (rule texts_cong)
  also have "\<dots> = take (length xs div 2) (texts h xs) @ drop (Suc (length xs div 2)) (texts h xs)"
    by (simp add: texts_def take_map drop_map)
  finally show ?thesis
    using h' q_texts_ring [OF h'(2)] by auto
qed

lemma q_delete_dup_texts:
  assumes "ring h head xs"
  shows "\<exists>h'. q_delete_dup head h = Some (h', True) \<and>
           q_texts head h' =
             Some (map (text_of h) (drop_adjacent (text_of h) (msort_list (text_of h) xs)))"
proof -
  from q_delete_dup_ring [OF assms refl] obtain h' where h':
    "q_delete_dup head h = Some (h', True)"
    "ring h' head (drop_adjacent (text_of h) (msort_list (text_of h) xs))"
    "val h' = val h" "str h' = str h"
    by blast
  have "text_of h' = text_of h"
    using h'(3,4) by (rule text_of_cong)
  then show ?thesis
    using h' q_texts_ring [OF h'(2)] by (simp add: texts_def)
qed

subsection \<open>Well-formed queues\<close>

lemma well_formedI: "ring h head xs \<Longrightarrow> owns h head xs \<Longrightarrow> well_formed h head xs"
  by (simp add: well_formed_def queue_def ring_imp_invariant)

lemma q_sort_queue:
  assumes "queue h head xs"
  shows "\<exists>h'. q_sort head h = Some h' \<and> well_formed h' head (msort_list (text_of h) xs)"
proof -
  have r: "ring h head xs" and o: "owns h head xs"
    using assms by (simp_all add: queue_def)
  from q_sort_ring [OF r refl] obtain h' where h': "q_sort head h = Some h'"
    "ring h' head (msort_list (text_of h) xs)" "val h' = val h" "live h' = live h"
    by blast
  have "owns h' head (msort_list (text_of h) xs)"
    using o set_msort_list h'(3,4) by (rule owns_perm)
  then show ?thesis
    using h' well_formedI by blast
qed

lemma set_swap_pairs: "set (swap_pairs xs) = set xs"
  by (induction xs rule: swap_pairs.induct) auto

lemma q_swap_queue:
  assumes "queue h head xs"
  shows "\<exists>h'. q_swap head h = Some h' \<and> well_formed h' head (swap_pairs xs)"
proof -
  have r: "ring h head xs" and o: "owns h head xs"
    using assms by (simp_all add: queue_def)
  from q_swap_ring [OF r] obtain h' where h': "q_swap head h = Some h'"
    "ring h' head (swap_pairs xs)" "val h' = val h" "live h' = live h"
    by blast
  have "owns h' head (swap_pairs xs)"
    using o set_swap_pairs h'(3,4) by (rule owns_perm)
  then show ?thesis
    using h' well_formedI by blast
qed

lemma q_reverse_queue:
  assumes "queue h head xs"
  shows "\<exists>h'. q_reverse head h = Some h' \<and> well_formed h' head (rev xs)"
proof -
  have r: "ring h head xs" and o: "owns h head xs"
    using assms by (simp_all add: queue_def)
  from q_reverse_ring [OF r] obtain h' where h': "q_reverse head h = Some h'"
    "ring h' head (rev xs)" "val h' = val h" "live h' = live h"
    by blast
  have "owns h' head (rev xs)"
    using o set_rev h'(3,4) by (rule owns_perm)
  then show ?thesis
    using h' well_formedI by blast
qed

lemma q_delete_mid_queue:
  assumes "queue h head xs"
  shows "\<exists>h'. q_delete_mid head h = Some (h', xs \<noteq> []) \<and>
           well_formed h' head (take (length xs div 2) xs @ drop (Suc (length xs div 2)) xs)"
proof (cases "xs = []")
  case True
  then show ?thesis
    using assms q_delete_mid_empty [of head h] well_formedI [of h head xs]
    by (simp add: queue_def)
next
  case False
  let ?k = "length xs div 2"
  let ?ys = "take ?k xs @ drop (Suc ?k) xs"
  have r: "ring h head xs" and o: "owns h head xs"
    using assms by (simp_all add: queue_def)
  have k: "?k < length xs"
    using False by simp
  from q_delete_mid_ring [OF r False] obtain h' where h': "q_delete_mid head h = Some (h', True)"
    "ring h' head ?ys" "val h' = val h"
    "live h' = live h - ({xs ! ?k, val h (xs ! ?k)} - {NULL})"
    by blast
  have d: "distinct xs" "head \<notin> set xs"
    using r by (auto simp: ring_def)
  have "distinct (as @ x # bs) \<Longrightarrow> set (as @ x # bs) - set (as @ bs) = {x}"
    for as bs and x :: addr
    by auto
  from this [of "take ?k xs" "xs ! ?k" "drop (Suc ?k) xs"]
  have "set xs - set ?ys = {xs ! ?k}"
    using k d(1) by (simp add: id_take_nth_drop [symmetric])
  moreover have sub: "set ?ys \<subseteq> set xs"
    by (auto dest: in_set_takeD in_set_dropD)
  ultimately have "set xs - set ?ys = {xs ! ?k}" "set ?ys \<subseteq> set xs"
    by blast+
  then have "live h' = live h - ((set xs - set ?ys \<union> val h ` (set xs - set ?ys)) - {NULL})"
    using h'(4) by (simp add: insert_commute)
  from owns_delete [OF o \<open>set ?ys \<subseteq> set xs\<close> h'(3) d(2) this]
  show ?thesis
    using h' False well_formedI by auto
qed

lemma ring_cong: "nxt h' = nxt h \<Longrightarrow> prv h' = prv h \<Longrightarrow> ring h' head xs = ring h head xs"
  by (simp add: ring_def)

lemma owns_mono:
  "owns h head xs \<Longrightarrow> val h' = val h \<Longrightarrow> live h \<subseteq> live h' \<Longrightarrow> owns h' head xs"
  unfolding owns_def by auto

lemma q_delete_dup_queue:
  assumes "queue h head xs"
  shows "\<exists>h'. q_delete_dup head h = Some (h', True) \<and>
           well_formed h' head (drop_adjacent (text_of h) (msort_list (text_of h) xs))"
proof -
  let ?ys = "drop_adjacent (text_of h) (msort_list (text_of h) xs)"
  have r: "ring h head xs" and o: "owns h head xs"
    using assms by (simp_all add: queue_def)
  from q_delete_dup_ring [OF r refl] obtain h' where h': "q_delete_dup head h = Some (h', True)"
    "ring h' head ?ys" "val h' = val h"
    "live h' = live h - ((set xs - set ?ys \<union> val h ` (set xs - set ?ys)) - {NULL})"
    by auto
  have sub: "set ?ys \<subseteq> set xs"
    using set_drop_adjacent [of "text_of h" "msort_list (text_of h) xs"]
    by (simp add: set_msort_list)
  have "head \<notin> set xs"
    using r by (simp add: ring_def)
  from owns_delete [OF o sub h'(3) this h'(4)] show ?thesis
    using h' well_formedI by blast
qed

lemma q_insert_no_string_queue:
  assumes "queue h head xs" "q \<noteq> NULL" "q \<notin> live h"
  shows "\<exists>h'. q_insert_head head (Some cs) (Some q) None h = Inr (h', False) \<and>
           q_insert_tail head (Some cs) (Some q) None h = Inr (h', False) \<and>
           well_formed h' head xs"
proof -
  have r: "ring h head xs" and o: "owns h head xs"
    using assms(1) by (simp_all add: queue_def)
  from q_insert_no_string [of head q h cs] ring_head [OF r] assms(2,3)
  obtain h' where h': "q_insert_head head (Some cs) (Some q) None h = Inr (h', False)"
    "q_insert_tail head (Some cs) (Some q) None h = Inr (h', False)"
    "nxt h' = nxt h" "prv h' = prv h" "live h' = live h"
    "\<forall>a. a \<noteq> q \<longrightarrow> val h' a = val h a"
    by blast
  have "val h' x = val h x" if "x \<in> set xs" for x
  proof -
    have "x \<in> live h"
      using ownsD(2) [OF o that] by simp
    then have "x \<noteq> q"
      using assms(3) by auto
    then show ?thesis
      using h'(6) by simp
  qed
  then have "\<forall>x\<in>set xs. val h' x = val h x"
    by simp
  from queue_frame [OF assms(1) h'(3,4,5) this] have "queue h' head xs" .
  then show ?thesis
    using h' well_formedI by (auto simp: queue_def)
qed

lemma q_insert_head_cases:
  assumes "queue h head xs" "fresh_alloc r_node r_str h"
  shows "\<exists>h'. q_insert_head head (Some cs) r_node r_str h =
             Inr (h', r_node \<noteq> None \<and> r_str \<noteq> None) \<and>
           well_formed h' head (if r_node \<noteq> None \<and> r_str \<noteq> None then the r_node # xs else xs)"
proof (cases r_node)
  case None
  then show ?thesis
    using assms(1) well_formedI [of h head xs] by (auto simp: q_insert_no_node queue_def)
next
  case (Some q)
  then have q: "q \<noteq> NULL" "q \<notin> live h"
    using assms(2) by (simp_all add: fresh_alloc_def)
  show ?thesis
  proof (cases r_str)
    case None
    then show ?thesis
      using q_insert_no_string_queue [OF assms(1) q, of cs] Some by auto
  next
    case p: (Some p)
    then have "p \<noteq> NULL" "p \<notin> live h" "p \<noteq> q"
      using assms(2) Some by (auto simp: fresh_alloc_def)
    from q_insert_head_queue [OF assms(1) q this, of cs] show ?thesis
      using Some p well_formedI by (auto simp: queue_def)
  qed
qed

lemma q_insert_tail_cases:
  assumes "queue h head xs" "fresh_alloc r_node r_str h"
  shows "\<exists>h'. q_insert_tail head (Some cs) r_node r_str h =
             Inr (h', r_node \<noteq> None \<and> r_str \<noteq> None) \<and>
           well_formed h' head (if r_node \<noteq> None \<and> r_str \<noteq> None then xs @ [the r_node] else xs)"
proof (cases r_node)
  case None
  then show ?thesis
    using assms(1) well_formedI [of h head xs] by (auto simp: q_insert_no_node queue_def)
next
  case (Some q)
  then have q: "q \<noteq> NULL" "q \<notin> live h"
    using assms(2) by (simp_all add: fresh_alloc_def)
  show ?thesis
  proof (cases r_str)
    case None
    then show ?thesis
      using q_insert_no_string_queue [OF assms(1) q, of cs] Some by auto
  next
    case p: (Some p)
    then have "p \<noteq> NULL" "p \<notin> live h" "p \<noteq> q"
      using assms(2) Some by (auto simp: fresh_alloc_def)
    from q_insert_tail_queue [OF assms(1) q this, of cs] show ?thesis
      using Some p well_formedI by (auto simp: queue_def)
  qed
qed

lemma q_remove_head_queue:
  assumes "queue h head xs" "q_remove_head head sp bufsize h = Inr (h', e, sp')"
  shows "well_formed h' head (tl xs)"
proof (cases "xs = []")
  case True
  then show ?thesis
    using assms q_remove_nothing(1) [of head h sp bufsize] well_formedI [of h head xs]
    by (simp add: queue_def)
next
  case False
  have r: "ring h head xs" and o: "owns h head xs"
    using assms(1) by (simp_all add: queue_def)
  have h': "h' = list_del_init (hd xs) h"
    using q_remove_head_ring(1) [OF r False, of sp bufsize] assms(2)
    by (auto split: option.splits sum.splits)
  have "owns h' head (tl xs)"
    using o unfolding h' by (rule owns_remove) (use False in \<open>auto dest: list.set_sel(2)\<close>)
  then show ?thesis
    using q_remove_head_ring(2) [OF r False] h' well_formedI by simp
qed

lemma q_remove_tail_queue:
  assumes "queue h head xs" "q_remove_tail head sp bufsize h = Inr (h', e, sp')"
  shows "well_formed h' head (butlast xs)"
proof (cases "xs = []")
  case True
  then show ?thesis
    using assms q_remove_nothing(2) [of head h sp bufsize] well_formedI [of h head xs]
    by (simp add: queue_def)
next
  case False
  have r: "ring h head xs" and o: "owns h head xs"
    using assms(1) by (simp_all add: queue_def)
  have h': "h' = list_del_init (last xs) h"
    using q_remove_tail_ring(1) [OF r False, of sp bufsize] assms(2)
    by (auto split: option.splits sum.splits)
  have "owns h' head (butlast xs)"
    using o unfolding h' by (rule owns_remove) (auto dest: in_set_butlastD)
  then show ?thesis
    using q_remove_tail_ring(2) [OF r False] h' well_formedI by simp
qed

lemma q_release_element_queue:
  assumes "queue h head xs" "e \<notin> insert head (set xs \<union> val h ` set xs)"
    "val h e \<notin> insert head (set xs \<union> val h ` set xs)"
  shows "well_formed (q_release_element e h) head xs"
proof -
  let ?h' = "q_release_element e h"
  have r: "ring h head xs" and o: "owns h head xs"
    using assms(1) by (simp_all add: queue_def)
  have "owns ?h' head xs"
  proof (rule ownsI)
    show "head \<in> live ?h'"
      using ownsD(1) [OF o] assms(2,3) by (auto simp: live_q_release_element)
  next
    fix x assume x: "x \<in> set xs"
    then have i: "val h x \<in> val h ` set xs"
      by (rule imageI)
    have n: "val h e \<notin> val h ` set xs" "e \<notin> val h ` set xs" "e \<notin> set xs" "val h e \<notin> set xs"
      using assms(2,3) by simp_all
    have "val h x \<noteq> val h e" "val h x \<noteq> e" "x \<noteq> e" "x \<noteq> val h e"
      using i x n by metis+
    with ownsD(2) [OF o x]
    show "x \<in> live ?h' \<and> val ?h' x \<in> live ?h' \<and> val ?h' x \<noteq> NULL \<and> val ?h' x \<noteq> head \<and>
        val ?h' x \<notin> set xs"
      by (auto simp: live_q_release_element)
  next
    fix x y assume "x \<in> set xs" "y \<in> set xs" "val ?h' x = val ?h' y"
    then show "x = y"
      using ownsD(3) [OF o, of x y] by simp
  qed
  then show ?thesis
    using r well_formedI by simp
qed

lemma q_new_queue:
  assumes "queue h head xs" "a \<noteq> NULL" "a \<notin> live h"
  shows "\<exists>h'. q_new (Some a) h = (h', a) \<and> well_formed h' a [] \<and> well_formed h' head xs"
proof -
  have r: "ring h head xs" and o: "owns h head xs"
    using assms(1) by (simp_all add: queue_def)
  let ?h' = "INIT_LIST_HEAD a (h\<lparr>live := insert a (live h)\<rparr>)"
  have run: "q_new (Some a) h = (?h', a)"
    using assms(2) by (simp add: q_new_def malloc_def)
  have "a \<notin> set (head # xs)"
    using ownsD(1,2) [OF o] assms(3) by auto
  then have "ring ?h' head xs"
    using r by (simp add: ring_INIT_frame) (simp add: ring_def)
  moreover have "owns ?h' head xs"
    using o by (rule owns_mono) auto
  moreover have "ring ?h' a []"
    using assms(2) by (simp add: ring_def INIT_LIST_HEAD_def)
  moreover have "owns ?h' a []"
    by (simp add: owns_def)
  ultimately show ?thesis
    using run well_formedI by blast
qed

lemma q_free_loop_ring:
  "ring h head (ds @ ts) \<Longrightarrow>
   \<exists>h'. q_free_loop head (hd (ts @ [head])) (nxt h (hd (ts @ [head]))) h = Some h' \<and>
        live h' = live h - ((set ts \<union> val h ` set ts) - {NULL})"
proof (induction ts arbitrary: ds h)
  case Nil
  then show ?case
    by (subst q_free_loop.simps) simp
next
  case (Cons t ts)
  let ?h1 = "q_release_element t h"
  have t: "t \<noteq> head" "nxt h t = hd (ts @ [head])"
    using Cons.prems ring_nxt_mid [OF Cons.prems] by (auto simp: ring_def)
  have "ring ?h1 head ((ds @ [t]) @ ts)"
    using Cons.prems by simp
  from Cons.IH [OF this] obtain h' where
    "q_free_loop head (hd (ts @ [head])) (nxt ?h1 (hd (ts @ [head]))) ?h1 = Some h'"
    "live h' = live ?h1 - ((set ts \<union> val ?h1 ` set ts) - {NULL})"
    by blast
  then show ?case
    using t by (subst q_free_loop.simps) (auto simp: Let_def live_q_release_element)
qed

lemma q_free_queue:
  assumes "queue h head xs"
  shows "\<exists>h'. q_free head h = Some h' \<and>
           live h' = live h - insert head (set xs \<union> val h ` set xs)"
proof -
  have r: "ring h head xs" and o: "owns h head xs"
    using assms(1) by (simp_all add: queue_def)
  have "ring h head ([] @ xs)"
    using r by simp
  from q_free_loop_ring [OF this] obtain h1 where h1:
    "q_free_loop head (hd (xs @ [head])) (nxt h (hd (xs @ [head]))) h = Some h1"
    "live h1 = live h - ((set xs \<union> val h ` set xs) - {NULL})"
    by blast
  have "NULL \<notin> set xs \<union> val h ` set xs"
    using r ownsD(2) [OF o] by (auto simp: ring_def)
  then have "live h1 = live h - (set xs \<union> val h ` set xs)"
    using h1(2) by simp
  then show ?thesis
    using h1(1) ring_head [OF r] ring_nxt_head [OF r]
    by (auto simp: q_free_def free_def)
qed

lemma q_remove_none_queue:
  assumes "queue h head xs"
  shows "\<exists>h'. q_remove_head head None bufsize h = Inr (h', hd (xs @ [NULL]), None) \<and>
           well_formed h' head (tl xs)"
    and "\<exists>h'. q_remove_tail head None bufsize h = Inr (h', last (NULL # xs), None) \<and>
           well_formed h' head (butlast xs)"
proof -
  have r: "ring h head xs"
    using assms by (simp add: queue_def)
  have "\<exists>h'. q_remove_head head None bufsize h = Inr (h', hd (xs @ [NULL]), None)"
    using q_remove_head_ring(1) [OF r, of None bufsize] q_remove_nothing(1) [of head h None bufsize] r
    by (cases "xs = []") auto
  then show "\<exists>h'. q_remove_head head None bufsize h = Inr (h', hd (xs @ [NULL]), None) \<and>
           well_formed h' head (tl xs)"
    using q_remove_head_queue [OF assms] by blast
  have "\<exists>h'. q_remove_tail head None bufsize h = Inr (h', last (NULL # xs), None)"
    using q_remove_tail_ring(1) [OF r, of None bufsize] q_remove_nothing(2) [of head h None bufsize] r
    by (cases "xs = []") auto
  then show "\<exists>h'. q_remove_tail head None bufsize h = Inr (h', last (NULL # xs), None) \<and>
           well_formed h' head (butlast xs)"
    using q_remove_tail_queue [OF assms] by blast
qed

lemma q_new_cases:
  assumes "queue h head xs" "fresh_alloc r_node r_str h"
  shows "\<exists>h'. q_new r_node h = (h', case r_node of None \<Rightarrow> NULL | Some a \<Rightarrow> a) \<and>
           well_formed h' head xs \<and> (r_node \<noteq> None \<longrightarrow> well_formed h' (the r_node) [])"
proof (cases r_node)
  case None
  then show ?thesis
    using assms(1) well_formedI [of h head xs] by (simp add: q_new_fail queue_def)
next
  case (Some a)
  then have "a \<noteq> NULL" "a \<notin> live h"
    using assms(2) by (simp_all add: fresh_alloc_def)
  from q_new_queue [OF assms(1) this] show ?thesis
    using Some by auto
qed

section \<open>The claims\<close>

text \<open>
  Claim C1: after \<open>q_sort\<close> the queue holds the same elements with the same texts,
  and every element compares \<open>\<le>\<close> with its successor in traversal order.  On a null
  queue, an empty queue and a queue of one element \<open>q_sort\<close> changes nothing.
\<close>

theorem q_sort_ascending:
  "(ring h head xs \<longrightarrow>
      (\<exists>h' ys. q_sort head h = Some h' \<and> ring h' head ys \<and> mset ys = mset xs \<and>
         ascending (texts h' ys) \<and> text_of h' = text_of h \<and> live h' = live h)) \<and>
   (head = NULL \<or> ring h head xs \<and> length xs \<le> 1 \<longrightarrow> q_sort head h = Some h)"
proof -
  have "\<exists>h' ys. q_sort head h = Some h' \<and> ring h' head ys \<and> mset ys = mset xs \<and>
         ascending (texts h' ys) \<and> text_of h' = text_of h \<and> live h' = live h"
    if r: "ring h head xs"
  proof -
    let ?ys = "msort_list (text_of h) xs"
    from q_sort_ring [OF r refl] obtain h' where h': "q_sort head h = Some h'"
      "ring h' head ?ys" "val h' = val h" "str h' = str h" "live h' = live h"
      by blast
    have t: "text_of h' = text_of h"
      using h'(3,4) by (rule text_of_cong)
    then have "ascending (texts h' ?ys)"
      by (simp add: ascending_sorted texts_def sorted_msort_list)
    then show ?thesis
      using h' t mset_msort_list by blast
  qed
  moreover have "q_sort NULL h = Some h"
    by (simp add: q_sort_def)
  ultimately show ?thesis
    using q_sort_small by blast
qed

theorem q_sort_ascending_witness:
  "ring (q_build 1 [(2, 3, ''c''), (4, 5, ''a''), (6, 7, ''b'')]) 1 [2, 4, 6] \<and>
   (\<exists>h' ys. q_sort 1 (q_build 1 [(2, 3, ''c''), (4, 5, ''a''), (6, 7, ''b'')]) = Some h' \<and>
      ring h' 1 ys \<and> mset ys = mset [2, 4, 6] \<and> ascending (texts h' ys)) \<and>
   ring (q_build 1 [(2, 3, ''c'')]) 1 [2] \<and> length [2 :: addr] \<le> 1 \<and>
   q_sort 1 (q_build 1 [(2, 3, ''c'')]) = Some (q_build 1 [(2, 3, ''c'')]) \<and>
   q_sort NULL empty_heap = Some empty_heap"
proof -
  let ?H = "q_build 1 [(2, 3, ''c''), (4, 5, ''a''), (6, 7, ''b'')]"
  let ?G = "q_build 1 [(2, 3, ''c'')]"
  have r: "ring ?H 1 [2, 4, 6]"
    using q_build_queue(1) [of 1 "[(2, 3, ''c''), (4, 5, ''a''), (6, 7, ''b'')]"]
    by (simp add: queue_def)
  have g: "ring ?G 1 [2]"
    using q_build_queue(1) [of 1 "[(2, 3, ''c'')]"] by (simp add: queue_def)
  show ?thesis
    using q_sort_ascending [of ?H 1 "[2, 4, 6]"] q_sort_ascending [of ?G 1 "[2]"]
      q_sort_ascending [of empty_heap NULL "[]"] r g
    by auto
qed

text \<open>
  Claim C2 on the input \<open>["a", "a", "b", "c", "c"]\<close>: \<open>q_delete_dup\<close> leaves
  \<open>["a", "b", "c"]\<close>, one element of every run of equal texts, where the claim asks
  for \<open>["b"]\<close>.
\<close>

theorem q_delete_dup_keeps_one_of_each:
  "Option.bind
     (q_delete_dup 1 (q_build 1 [(2, 3, ''a''), (4, 5, ''a''), (6, 7, ''b''), (8, 9, ''c''),
                                 (10, 11, ''c'')]))
     (\<lambda>(h', ok). q_texts 1 h') = Some [''a'', ''b'', ''c'']"
proof -
  let ?C = "[(2, 3, ''a''), (4, 5, ''a''), (6, 7, ''b''), (8, 9, ''c''), (10, 11, ''c'')]
             :: (addr \<times> addr \<times> string) list"
  let ?t = "text_of (q_build 1 ?C)"
  have r: "ring (q_build 1 ?C) 1 [2, 4, 6, 8, 10]"
    and t: "texts (q_build 1 ?C) [2, 4, 6, 8, 10] = [''a'', ''a'', ''b'', ''c'', ''c'']"
    using q_build_queue(1,2) [of 1 ?C] by (simp_all add: queue_def)
  have tv: "?t 2 = ''a''" "?t 4 = ''a''" "?t 6 = ''b''" "?t 8 = ''c''" "?t 10 = ''c''"
    using t by (simp_all add: texts_def)
  have "map ?t (drop_adjacent ?t (msort_list ?t [2, 4, 6, 8, 10])) = [''a'', ''b'', ''c'']"
    by (simp add: tv)
  with q_delete_dup_texts [OF r] show ?thesis
    by auto
qed

text \<open>
  Claim C3, as the code has it: on a non-empty queue \<open>q_delete_mid\<close> deletes the
  element at 0-based index \<open>\<lfloor>n / 2\<rfloor>\<close> and returns \<open>true\<close>; the other elements keep
  their order and their texts.  On a null or empty queue it returns \<open>false\<close> and
  changes nothing.  (With six elements the index is 3.)
\<close>

theorem q_delete_mid_index:
  "(ring h head xs \<and> xs \<noteq> [] \<longrightarrow>
     (\<exists>h'. q_delete_mid head h = Some (h', True) \<and>
        ring h' head (take (length xs div 2) xs @ drop (Suc (length xs div 2)) xs) \<and>
        q_texts head h' =
          Some (take (length xs div 2) (texts h xs) @ drop (Suc (length xs div 2)) (texts h xs)))) \<and>
   (head = NULL \<or> ring h head [] \<longrightarrow> q_delete_mid head h = Some (h, False))"
  using q_delete_mid_texts [of h head xs] q_delete_mid_empty [of head h] by blast

theorem q_delete_mid_index_witness:
  "ring (q_build 1 [(2, 3, ''a''), (4, 5, ''b''), (6, 7, ''c''), (8, 9, ''d''), (10, 11, ''e''),
                    (12, 13, ''f'')]) 1 [2, 4, 6, 8, 10, 12] \<and>
   [2, 4, 6, 8, 10, 12 :: addr] \<noteq> [] \<and>
   (\<exists>h'. q_delete_mid 1 (q_build 1 [(2, 3, ''a''), (4, 5, ''b''), (6, 7, ''c''), (8, 9, ''d''),
                                    (10, 11, ''e''), (12, 13, ''f'')]) = Some (h', True) \<and>
         ring h' 1 [2, 4, 6, 10, 12] \<and>
         q_texts 1 h' = Some [''a'', ''b'', ''c'', ''e'', ''f'']) \<and>
   q_delete_mid NULL empty_heap = Some (empty_heap, False)"
proof -
  let ?C = "[(2, 3, ''a''), (4, 5, ''b''), (6, 7, ''c''), (8, 9, ''d''), (10, 11, ''e''),
             (12, 13, ''f'')] :: (addr \<times> addr \<times> string) list"
  have r: "ring (q_build 1 ?C) 1 [2, 4, 6, 8, 10, 12]"
    and t: "texts (q_build 1 ?C) [2, 4, 6, 8, 10, 12] = [''a'', ''b'', ''c'', ''d'', ''e'', ''f'']"
    using q_build_queue(1,2) [of 1 ?C] by (simp_all add: queue_def)
  have pre: "ring (q_build 1 ?C) 1 [2, 4, 6, 8, 10, 12] \<and> [2, 4, 6, 8, 10, 12 :: addr] \<noteq> []"
    using r by simp
  from q_delete_mid_index [of "q_build 1 ?C" 1 "[2, 4, 6, 8, 10, 12]", THEN conjunct1, THEN mp,
      OF pre]
  have "\<exists>h'. q_delete_mid 1 (q_build 1 ?C) = Some (h', True) \<and>
         ring h' 1 [2, 4, 6, 10, 12] \<and> q_texts 1 h' = Some [''a'', ''b'', ''c'', ''e'', ''f'']"
    unfolding t by simp
  moreover have "q_delete_mid NULL empty_heap = Some (empty_heap, False)"
    using q_delete_mid_index [of empty_heap NULL "[]"] by simp
  ultimately show ?thesis
    using r by simp
qed

theorem q_delete_mid_six_counterexample:
  "Option.bind
     (q_delete_mid 1 (q_build 1 [(2, 3, ''a''), (4, 5, ''b''), (6, 7, ''c''), (8, 9, ''d''),
                                 (10, 11, ''e''), (12, 13, ''f'')]))
     (\<lambda>(h', ok). q_texts 1 h') = Some [''a'', ''b'', ''c'', ''e'', ''f''] \<and>
   Option.bind
     (q_delete_mid 1 (q_build 1 [(2, 3, ''a''), (4, 5, ''b''), (6, 7, ''c''), (8, 9, ''d''),
                                 (10, 11, ''e''), (12, 13, ''f'')]))
     (\<lambda>(h', ok). q_texts 1 h') \<noteq> Some [''a'', ''b'', ''d'', ''e'', ''f'']"
proof -
  let ?C = "[(2, 3, ''a''), (4, 5, ''b''), (6, 7, ''c''), (8, 9, ''d''), (10, 11, ''e''),
             (12, 13, ''f'')] :: (addr \<times> addr \<times> string) list"
  have r: "ring (q_build 1 ?C) 1 [2, 4, 6, 8, 10, 12]"
    and t: "texts (q_build 1 ?C) [2, 4, 6, 8, 10, 12] = [''a'', ''b'', ''c'', ''d'', ''e'', ''f'']"
    using q_build_queue(1,2) [of 1 ?C] by (simp_all add: queue_def)
  from q_delete_mid_texts [OF r] obtain h' where "q_delete_mid 1 (q_build 1 ?C) = Some (h', True)"
    "q_texts 1 h' = Some [''a'', ''b'', ''c'', ''e'', ''f'']"
    unfolding t by auto
  then show ?thesis
    by simp
qed

text \<open>
  Claim C4: every public operation maps a well-formed queue to a well-formed queue.
  After \<open>q_sort\<close>, \<open>q_swap\<close>, \<open>q_reverse\<close>, \<open>q_delete_mid\<close>, \<open>q_delete_dup\<close>,
  \<open>q_insert_head\<close>, \<open>q_insert_tail\<close>, \<open>q_remove_head\<close>, \<open>q_remove_tail\<close>,
  \<open>q_new\<close> and \<open>q_release_element\<close> every node of the ring, the sentinel
  included, has \<open>node.next.prev == node\<close> and \<open>node.prev.next == node\<close>, and the
  sentinel of an empty queue points to itself (\<open>q_release_element\<close> writes no link
  at all; the queue keeps owning its blocks when the element released is not one of
  its own).
  \<open>q_size\<close> changes nothing and returns the number of elements (as a 32-bit
  \<open>int\<close>), and \<open>q_free\<close> returns with every block of the queue released.
\<close>

theorem ring_invariant_preserved:
  "queue h head xs \<longrightarrow>
     (\<exists>h'. q_sort head h = Some h' \<and> well_formed h' head (msort_list (text_of h) xs)) \<and>
     (\<exists>h'. q_swap head h = Some h' \<and> well_formed h' head (swap_pairs xs)) \<and>
     (\<exists>h'. q_reverse head h = Some h' \<and> well_formed h' head (rev xs)) \<and>
     (\<exists>h'. q_delete_mid head h = Some (h', xs \<noteq> []) \<and>
        well_formed h' head (take (length xs div 2) xs @ drop (Suc (length xs div 2)) xs)) \<and>
     (\<exists>h'. q_delete_dup head h = Some (h', True) \<and>
        well_formed h' head (drop_adjacent (text_of h) (msort_list (text_of h) xs))) \<and>
     (fresh_alloc r_node r_str h \<longrightarrow>
        (\<exists>h'. q_insert_head head (Some cs) r_node r_str h =
                Inr (h', r_node \<noteq> None \<and> r_str \<noteq> None) \<and>
           well_formed h' head
             (if r_node \<noteq> None \<and> r_str \<noteq> None then the r_node # xs else xs)) \<and>
        (\<exists>h'. q_insert_tail head (Some cs) r_node r_str h =
                Inr (h', r_node \<noteq> None \<and> r_str \<noteq> None) \<and>
           well_formed h' head
             (if r_node \<noteq> None \<and> r_str \<noteq> None then xs @ [the r_node] else xs)) \<and>
        (\<exists>h'. q_new r_node h = (h', case r_node of None \<Rightarrow> NULL | Some a \<Rightarrow> a) \<and>
           well_formed h' head xs \<and> (r_node \<noteq> None \<longrightarrow> well_formed h' (the r_node) []))) \<and>
     (\<exists>h'. q_remove_head head None bufsize h = Inr (h', hd (xs @ [NULL]), None) \<and>
        well_formed h' head (tl xs)) \<and>
     (\<exists>h'. q_remove_tail head None bufsize h = Inr (h', last (NULL # xs), None) \<and>
        well_formed h' head (butlast xs)) \<and>
     (\<forall>h' e' sp'. q_remove_head head sp bufsize h = Inr (h', e', sp') \<longrightarrow>
        well_formed h' head (tl xs)) \<and>
     (\<forall>h' e' sp'. q_remove_tail head sp bufsize h = Inr (h', e', sp') \<longrightarrow>
        well_formed h' head (butlast xs)) \<and>
     ring_invariant (q_release_element e h) head xs \<and>
     (e \<notin> insert head (set xs \<union> val h ` set xs) \<and>
      val h e \<notin> insert head (set xs \<union> val h ` set xs) \<longrightarrow>
        well_formed (q_release_element e h) head xs) \<and>
     q_size head h = Some (sint (of_nat (length xs) :: 32 word)) \<and>
     (\<exists>h'. q_free head h = Some h' \<and>
        live h' = live h - insert head (set xs \<union> val h ` set xs))"
proof
  assume q: "queue h head xs"
  then have r: "ring h head xs"
    by (simp add: queue_def)
  note ops = q_sort_queue [OF q] q_swap_queue [OF q] q_reverse_queue [OF q]
    q_delete_mid_queue [OF q] q_delete_dup_queue [OF q]
    q_remove_none_queue [OF q, of bufsize] q_size_ring [OF r] q_free_queue [OF q]
  have ins: "fresh_alloc r_node r_str h \<longrightarrow>
        (\<exists>h'. q_insert_head head (Some cs) r_node r_str h =
                Inr (h', r_node \<noteq> None \<and> r_str \<noteq> None) \<and>
           well_formed h' head
             (if r_node \<noteq> None \<and> r_str \<noteq> None then the r_node # xs else xs)) \<and>
        (\<exists>h'. q_insert_tail head (Some cs) r_node r_str h =
                Inr (h', r_node \<noteq> None \<and> r_str \<noteq> None) \<and>
           well_formed h' head
             (if r_node \<noteq> None \<and> r_str \<noteq> None then xs @ [the r_node] else xs)) \<and>
        (\<exists>h'. q_new r_node h = (h', case r_node of None \<Rightarrow> NULL | Some a \<Rightarrow> a) \<and>
           well_formed h' head xs \<and> (r_node \<noteq> None \<longrightarrow> well_formed h' (the r_node) []))"
    using q_insert_head_cases [OF q, of r_node r_str cs] q_insert_tail_cases [OF q, of r_node r_str cs]
      q_new_cases [OF q, of r_node r_str]
    by (intro impI conjI)
  have rem: "\<forall>h' e' sp'. q_remove_head head sp bufsize h = Inr (h', e', sp') \<longrightarrow>
        well_formed h' head (tl xs)"
    "\<forall>h' e' sp'. q_remove_tail head sp bufsize h = Inr (h', e', sp') \<longrightarrow>
        well_formed h' head (butlast xs)"
    using q_remove_head_queue [OF q] q_remove_tail_queue [OF q] by blast+
  have rel: "e \<notin> insert head (set xs \<union> val h ` set xs) \<and>
      val h e \<notin> insert head (set xs \<union> val h ` set xs) \<longrightarrow>
        well_formed (q_release_element e h) head xs"
    using q_release_element_queue [OF q] by blast
  have rel0: "ring_invariant (q_release_element e h) head xs"
    using r by (intro ring_imp_invariant) simp
  show "(\<exists>h'. q_sort head h = Some h' \<and> well_formed h' head (msort_list (text_of h) xs)) \<and>
     (\<exists>h'. q_swap head h = Some h' \<and> well_formed h' head (swap_pairs xs)) \<and>
     (\<exists>h'. q_reverse head h = Some h' \<and> well_formed h' head (rev xs)) \<and>
     (\<exists>h'. q_delete_mid head h = Some (h', xs \<noteq> []) \<and>
        well_formed h' head (take (length xs div 2) xs @ drop (Suc (length xs div 2)) xs)) \<and>
     (\<exists>h'. q_delete_dup head h = Some (h', True) \<and>
        well_formed h' head (drop_adjacent (text_of h) (msort_list (text_of h) xs))) \<and>
     (fresh_alloc r_node r_str h \<longrightarrow>
        (\<exists>h'. q_insert_head head (Some cs) r_node r_str h =
                Inr (h', r_node \<noteq> None \<and> r_str \<noteq> None) \<and>
           well_formed h' head
             (if r_node \<noteq> None \<and> r_str \<noteq> None then the r_node # xs else xs)) \<and>
        (\<exists>h'. q_insert_tail head (Some cs) r_node r_str h =
                Inr (h', r_node \<noteq> None \<and> r_str \<noteq> None) \<and>
           well_formed h' head
             (if r_node \<noteq> None \<and> r_str \<noteq> None then xs @ [the r_node] else xs)) \<and>
        (\<exists>h'. q_new r_node h = (h', case r_node of None \<Rightarrow> NULL | Some a \<Rightarrow> a) \<and>
           well_formed h' head xs \<and> (r_node \<noteq> None \<longrightarrow> well_formed h' (the r_node) []))) \<and>
     (\<exists>h'. q_remove_head head None bufsize h = Inr (h', hd (xs @ [NULL]), None) \<and>
        well_formed h' head (tl xs)) \<and>
     (\<exists>h'. q_remove_tail head None bufsize h = Inr (h', last (NULL # xs), None) \<and>
        well_formed h' head (butlast xs)) \<and>
     (\<forall>h' e' sp'. q_remove_head head sp bufsize h = Inr (h', e', sp') \<longrightarrow>
        well_formed h' head (tl xs)) \<and>
     (\<forall>h' e' sp'. q_remove_tail head sp bufsize h = Inr (h', e', sp') \<longrightarrow>
        well_formed h' head (butlast xs)) \<and>
     ring_invariant (q_release_element e h) head xs \<and>
     (e \<notin> insert head (set xs \<union> val h ` set xs) \<and>
      val h e \<notin> insert head (set xs \<union> val h ` set xs) \<longrightarrow>
        well_formed (q_release_element e h) head xs) \<and>
     q_size head h = Some (sint (of_nat (length xs) :: 32 word)) \<and>
     (\<exists>h'. q_free head h = Some h' \<and>
        live h' = live h - insert head (set xs \<union> val h ` set xs))"
    by (intro conjI ops ins rem rel rel0)
qed

theorem ring_invariant_preserved_witness:
  "queue (q_build 1 [(2, 3, ''b''), (4, 5, ''a''), (6, 7, ''b'')]) 1 [2, 4, 6] \<and>
   fresh_alloc (Some 8) (Some 9) (q_build 1 [(2, 3, ''b''), (4, 5, ''a''), (6, 7, ''b'')]) \<and>
   (\<exists>h'. q_sort 1 (q_build 1 [(2, 3, ''b''), (4, 5, ''a''), (6, 7, ''b'')]) = Some h' \<and>
      well_formed h' 1 [4, 6, 2]) \<and>
   (\<exists>h'. q_swap 1 (q_build 1 [(2, 3, ''b''), (4, 5, ''a''), (6, 7, ''b'')]) = Some h' \<and>
      well_formed h' 1 [4, 2, 6]) \<and>
   (\<exists>h'. q_reverse 1 (q_build 1 [(2, 3, ''b''), (4, 5, ''a''), (6, 7, ''b'')]) = Some h' \<and>
      well_formed h' 1 [6, 4, 2]) \<and>
   (\<exists>h'. q_delete_mid 1 (q_build 1 [(2, 3, ''b''), (4, 5, ''a''), (6, 7, ''b'')]) =
        Some (h', True) \<and> well_formed h' 1 [2, 6]) \<and>
   (\<exists>h'. q_delete_dup 1 (q_build 1 [(2, 3, ''b''), (4, 5, ''a''), (6, 7, ''b'')]) =
        Some (h', True) \<and> well_formed h' 1 [4, 2]) \<and>
   (\<exists>h'. q_insert_head 1 (Some ''z'') (Some 8) (Some 9)
           (q_build 1 [(2, 3, ''b''), (4, 5, ''a''), (6, 7, ''b'')]) = Inr (h', True) \<and>
      well_formed h' 1 [8, 2, 4, 6]) \<and>
   (\<exists>h'. q_insert_tail 1 (Some ''z'') (Some 8) (Some 9)
           (q_build 1 [(2, 3, ''b''), (4, 5, ''a''), (6, 7, ''b'')]) = Inr (h', True) \<and>
      well_formed h' 1 [2, 4, 6, 8]) \<and>
   (\<exists>h'. q_new (Some 8) (q_build 1 [(2, 3, ''b''), (4, 5, ''a''), (6, 7, ''b'')]) = (h', 8) \<and>
      well_formed h' 1 [2, 4, 6] \<and> well_formed h' 8 []) \<and>
   (\<exists>h'. q_remove_head 1 None 0 (q_build 1 [(2, 3, ''b''), (4, 5, ''a''), (6, 7, ''b'')]) =
        Inr (h', 2, None) \<and> well_formed h' 1 [4, 6]) \<and>
   (\<exists>h'. q_remove_tail 1 None 0 (q_build 1 [(2, 3, ''b''), (4, 5, ''a''), (6, 7, ''b'')]) =
        Inr (h', 6, None) \<and> well_formed h' 1 [2, 4]) \<and>
   well_formed (q_release_element 20 (q_build 1 [(2, 3, ''b''), (4, 5, ''a''), (6, 7, ''b'')]))
     1 [2, 4, 6] \<and>
   q_size 1 (q_build 1 [(2, 3, ''b''), (4, 5, ''a''), (6, 7, ''b'')]) = Some 3 \<and>
   (\<exists>h'. q_free 1 (q_build 1 [(2, 3, ''b''), (4, 5, ''a''), (6, 7, ''b'')]) = Some h' \<and>
      live h' = {})"
proof -
  let ?C = "[(2, 3, ''b''), (4, 5, ''a''), (6, 7, ''b'')] :: (addr \<times> addr \<times> string) list"
  let ?H = "q_build 1 ?C"
  note b = q_build_queue [of 1 ?C]
  have q: "queue ?H 1 [2, 4, 6]" and t: "texts ?H [2, 4, 6] = [''b'', ''a'', ''b'']"
    and l: "live ?H = {1, 2, 4, 6, 3, 5, 7}"
    using b(1,2,3) by simp_all
  have v: "val ?H 2 = 3" "val ?H 4 = 5" "val ?H 6 = 7" "val ?H 20 = NULL"
    using b(4) [of 2] b(4) [of 4] b(4) [of 6] b(4) [of 20] by simp_all
  have tv: "text_of ?H 2 = ''b''" "text_of ?H 4 = ''a''" "text_of ?H 6 = ''b''"
    using t by (simp_all add: texts_def)
  have f: "fresh_alloc (Some 8) (Some 9) ?H"
    by (simp add: fresh_alloc_def l)
  have e: "20 \<notin> insert 1 (set [2, 4, 6] \<union> val ?H ` set [2, 4, 6]) \<and>
      val ?H 20 \<notin> insert 1 (set [2, 4, 6] \<union> val ?H ` set [2, 4, 6])"
    by (simp add: v)
  have ev: "msort_list (text_of ?H) [2, 4, 6] = [4, 6, 2]"
    "drop_adjacent (text_of ?H) [4, 6, 2] = [4, 2]"
    by (simp_all add: tv)
  have fr: "live ?H - insert 1 (set [2, 4, 6] \<union> val ?H ` set [2, 4, 6]) = {}"
    by (simp add: l v)
  note th = ring_invariant_preserved [of ?H 1 "[2, 4, 6]" "Some 8" "Some 9" "''z''" 0 None 20,
      THEN mp, OF q, unfolded ev fr]
  show ?thesis
    using th f e q by simp
qed

text \<open>
  Claim C5, as the code has it: for a non-empty queue, a non-null buffer and
  \<open>bufsize \<ge> 1\<close>, \<open>q_remove_head\<close> and \<open>q_remove_tail\<close> write the first
  \<open>bufsize - 1\<close> characters of the removed text, NUL bytes up to offset
  \<open>bufsize - 2\<close> when the text is shorter, and a NUL byte at offset \<open>bufsize - 1\<close>;
  nothing is written at or beyond offset \<open>bufsize\<close>, so every write is inside a
  buffer of at least \<open>bufsize\<close> bytes.
\<close>

theorem q_remove_copy_bounded:
  "ring h head xs \<and> xs \<noteq> [] \<and> bufsize \<noteq> 0 \<and> unat bufsize \<le> length buf \<longrightarrow>
     (\<exists>h'. q_remove_head head (Some buf) bufsize h =
        Inr (h', hd xs,
          Some (take (unat bufsize - 1) (text_of h (hd xs)) @
                replicate (unat bufsize - 1 - length (text_of h (hd xs))) (CHR 0x00) @
                CHR 0x00 # drop (unat bufsize) buf))) \<and>
     (\<exists>h'. q_remove_tail head (Some buf) bufsize h =
        Inr (h', last xs,
          Some (take (unat bufsize - 1) (text_of h (last xs)) @
                replicate (unat bufsize - 1 - length (text_of h (last xs))) (CHR 0x00) @
                CHR 0x00 # drop (unat bufsize) buf)))"
proof (intro impI, elim conjE)
  assume r: "ring h head xs" and ne: "xs \<noteq> []" and b: "bufsize \<noteq> 0" "unat bufsize \<le> length buf"
  show "(\<exists>h'. q_remove_head head (Some buf) bufsize h =
        Inr (h', hd xs,
          Some (take (unat bufsize - 1) (text_of h (hd xs)) @
                replicate (unat bufsize - 1 - length (text_of h (hd xs))) (CHR 0x00) @
                CHR 0x00 # drop (unat bufsize) buf))) \<and>
     (\<exists>h'. q_remove_tail head (Some buf) bufsize h =
        Inr (h', last xs,
          Some (take (unat bufsize - 1) (text_of h (last xs)) @
                replicate (unat bufsize - 1 - length (text_of h (last xs))) (CHR 0x00) @
                CHR 0x00 # drop (unat bufsize) buf)))"
    using q_remove_head_ring(1) [OF r ne, of "Some buf" bufsize]
      q_remove_tail_ring(1) [OF r ne, of "Some buf" bufsize]
    by (simp add: copy_out_fits [OF b])
qed

theorem q_remove_copy_bounded_witness:
  "ring (q_build 1 [(2, 3, ''hello''), (4, 5, ''b'')]) 1 [2, 4] \<and> [2, 4 :: addr] \<noteq> [] \<and>
   (3 :: 64 word) \<noteq> 0 \<and> unat (3 :: 64 word) \<le> length ''xxxx'' \<and>
   (\<exists>h'. q_remove_head 1 (Some ''xxxx'') 3 (q_build 1 [(2, 3, ''hello''), (4, 5, ''b'')]) =
           Inr (h', 2, Some [CHR ''h'', CHR ''e'', CHR 0x00, CHR ''x''])) \<and>
   (\<exists>h'. q_remove_tail 1 (Some ''xxxx'') 3 (q_build 1 [(2, 3, ''hello''), (4, 5, ''b'')]) =
           Inr (h', 4, Some [CHR ''b'', CHR 0x00, CHR 0x00, CHR ''x'']))"
proof -
  let ?H = "q_build 1 [(2, 3, ''hello''), (4, 5, ''b'')]"
  have r: "ring ?H 1 [2, 4]" and t: "texts ?H [2, 4] = [''hello'', ''b'']"
    using q_build_queue(1,2) [of 1 "[(2, 3, ''hello''), (4, 5, ''b'')]"]
    by (simp_all add: queue_def)
  have t': "text_of ?H 2 = ''hello''" "text_of ?H 4 = ''b''"
    using t by (simp_all add: texts_def)
  have pre: "ring ?H 1 [2, 4] \<and> [2, 4 :: addr] \<noteq> [] \<and> (3 :: 64 word) \<noteq> 0 \<and>
      unat (3 :: 64 word) \<le> length ''xxxx''"
    using r by simp
  have u: "unat (3 :: 64 word) = 3"
    by simp
  have e: "take (3 - 1) ''hello'' @ replicate (3 - 1 - length ''hello'') (CHR 0x00) @
        CHR 0x00 # drop 3 ''xxxx'' = [CHR ''h'', CHR ''e'', CHR 0x00, CHR ''x'']"
    "take (3 - 1) ''b'' @ replicate (3 - 1 - length ''b'') (CHR 0x00) @
        CHR 0x00 # drop 3 ''xxxx'' = [CHR ''b'', CHR 0x00, CHR 0x00, CHR ''x'']"
    by simp_all
  from q_remove_copy_bounded [of ?H 1 "[2, 4]" 3 "''xxxx''", THEN mp, OF pre] pre
  show ?thesis
    by (simp only: u t' e list.sel last.simps list.simps if_False if_True simp_thms)
qed

theorem q_remove_copy_zero_bufsize_counterexample:
  "ring (q_build 1 [(2, 3, ''a'')]) 1 [2] \<and>
   q_remove_head 1 (Some []) 0 (q_build 1 [(2, 3, ''a'')]) = Inl OutOfBounds \<and>
   q_remove_tail 1 (Some []) 0 (q_build 1 [(2, 3, ''a'')]) = Inl OutOfBounds"
proof -
  let ?H = "q_build 1 [(2, 3, ''a'')]"
  have r: "ring ?H 1 [2]"
    using q_build_queue(1) [of 1 "[(2, 3, ''a'')]"] by (simp add: queue_def)
  have "copy_out [] v 0 = Inl OutOfBounds" for v
    by (rule copy_out_zero) simp
  then show ?thesis
    using r q_remove_head_ring(1) [OF r, of "Some []" 0] q_remove_tail_ring(1) [OF r, of "Some []" 0]
    by simp
qed

text \<open>
  Claim C6: the merge step is not stable.  \<open>mergeTwoLists\<close> links the two chains into
  the chain \<open>merge_list\<close>, which takes the head of the left chain only when it
  compares \<open><\<close> with the head of the right chain.  So at every comparison in which
  the two heads compare equal the head of the second (right) chain is placed next,
  and the head of the first (left) chain stays the head of the left chain and
  comes behind it.  With two ascending chains, as \<open>mergesort\<close> passes them, every
  element of the right chain precedes every element of the left chain with an equal
  text.  So \<open>q_sort\<close> is not stable: it returns the elements with equal texts in the
  reverse of their original order.
\<close>

theorem mergeTwoLists_tie_break:
  "(chain (nxt h) l ls \<and> chain (nxt h) r rs \<and> distinct (ls @ rs) \<longrightarrow>
      (\<exists>h' first zs. mergeTwoLists l r h = Some (h', first) \<and> chain (nxt h') first zs \<and>
         zs = merge_list (text_of h) ls rs \<and> text_of h' = text_of h \<and>
         (\<forall>a as b bs. ls = a # as \<and> rs = b # bs \<and> strcmp (text_of h a) (text_of h b) = 0 \<longrightarrow>
            first = b \<and> zs = b # merge_list (text_of h) (a # as) bs) \<and>
         (ascending (texts h ls) \<and> ascending (texts h rs) \<longrightarrow>
            (\<forall>x\<in>set ls. \<forall>y\<in>set rs. strcmp (text_of h x) (text_of h y) = 0 \<longrightarrow>
               (\<exists>us vs ws. zs = us @ y # vs @ x # ws))))) \<and>
   (strcmp (text_of h a) (text_of h b) = 0 \<longrightarrow>
      merge_list (text_of h) (a # as) (b # bs) = b # merge_list (text_of h) (a # as) bs) \<and>
   (ring h head xs \<longrightarrow>
      (\<exists>h' ys. q_sort head h = Some h' \<and> ring h' head ys \<and> ys = msort_list (text_of h) xs \<and>
         text_of h' = text_of h \<and>
         (\<forall>us x vs y ws. xs = us @ x # vs @ y # ws \<and>
              strcmp (text_of h x) (text_of h y) = 0 \<longrightarrow>
            (\<exists>us' vs' ws'. ys = us' @ y # vs' @ x # ws'))))"
proof -
  let ?t = "text_of h"
  have merge: "\<exists>h' first zs. mergeTwoLists l r h = Some (h', first) \<and> chain (nxt h') first zs \<and>
         zs = merge_list ?t ls rs \<and> text_of h' = ?t \<and>
         (\<forall>a as b bs. ls = a # as \<and> rs = b # bs \<and> strcmp (?t a) (?t b) = 0 \<longrightarrow>
            first = b \<and> zs = b # merge_list ?t (a # as) bs) \<and>
         (ascending (texts h ls) \<and> ascending (texts h rs) \<longrightarrow>
            (\<forall>x\<in>set ls. \<forall>y\<in>set rs. strcmp (?t x) (?t y) = 0 \<longrightarrow>
               (\<exists>us vs ws. zs = us @ y # vs @ x # ws)))"
    if c: "chain (nxt h) l ls" "chain (nxt h) r rs" "distinct (ls @ rs)"
  proof -
    from mergeTwoLists_chain [OF c]
    obtain h' first where m: "mergeTwoLists l r h = Some (h', first)"
      "chain (nxt h') first (merge_list ?t ls rs)" "val h' = val h" "str h' = str h"
      by blast
    have t: "text_of h' = ?t"
      using m(3,4) by (rule text_of_cong)
    have tie: "first = b \<and> merge_list ?t ls rs = b # merge_list ?t (a # as) bs"
      if "ls = a # as \<and> rs = b # bs \<and> strcmp (?t a) (?t b) = 0" for a as b bs
      using that m(2) by simp
    have ord: "\<exists>us vs ws. merge_list ?t ls rs = us @ y # vs @ x # ws"
      if "ascending (texts h ls) \<and> ascending (texts h rs)" "x \<in> set ls" "y \<in> set rs"
        "strcmp (?t x) (?t y) = 0" for x y
    proof -
      have "sorted (map ?t ls)" "sorted (map ?t rs)" "?t x = ?t y"
        using that(1,4) by (simp_all add: ascending_sorted texts_def strcmp_eq)
      then have "subseq [y, x] (merge_list ?t ls rs)"
        using that(2,3) by (intro merge_list_right_first)
      then show ?thesis
        by (simp only: subseq_pair)
    qed
    show ?thesis
      using m(1,2) t tie ord by blast
  qed
  have rule: "merge_list ?t (a # as) (b # bs) = b # merge_list ?t (a # as) bs"
    if "strcmp (?t a) (?t b) = 0"
    using that by simp
  have sort: "\<exists>h' ys. q_sort head h = Some h' \<and> ring h' head ys \<and> ys = msort_list ?t xs \<and>
         text_of h' = ?t \<and>
         (\<forall>us x vs y ws. xs = us @ x # vs @ y # ws \<and> strcmp (?t x) (?t y) = 0 \<longrightarrow>
            (\<exists>us' vs' ws'. ys = us' @ y # vs' @ x # ws'))"
    if r: "ring h head xs"
  proof -
    from q_sort_ring [OF r refl] obtain h' where h': "q_sort head h = Some h'"
      "ring h' head (msort_list ?t xs)" "val h' = val h" "str h' = str h"
      by blast
    have t: "text_of h' = ?t"
      using h'(3,4) by (rule text_of_cong)
    have rev: "\<exists>us' vs' ws'. msort_list ?t xs = us' @ y # vs' @ x # ws'"
      if "xs = us @ x # vs @ y # ws \<and> strcmp (?t x) (?t y) = 0" for us x vs y ws
    proof -
      have "subseq [x, y] xs" "?t x = ?t y"
        using that by (auto simp only: subseq_pair strcmp_eq)
      then have "subseq [y, x] (msort_list ?t xs)"
        by (rule msort_list_reverses_ties)
      then show ?thesis
        by (simp only: subseq_pair)
    qed
    show ?thesis
      using h'(1,2) t rev by blast
  qed
  show ?thesis
    using merge rule sort by blast
qed

theorem mergeTwoLists_tie_break_witness:
  "chain (nxt (empty_heap\<lparr>nxt := (\<lambda>a. NULL)(2 := 8, 4 := 6), val := (\<lambda>a. a),
                            str := (\<lambda>a. ''a'')(8 := ''b'')\<rparr>)) 2 [2, 8] \<and>
   chain (nxt (empty_heap\<lparr>nxt := (\<lambda>a. NULL)(2 := 8, 4 := 6), val := (\<lambda>a. a),
                            str := (\<lambda>a. ''a'')(8 := ''b'')\<rparr>)) 4 [4, 6] \<and>
   distinct ([2, 8] @ [4, 6 :: addr]) \<and>
   strcmp (text_of (empty_heap\<lparr>nxt := (\<lambda>a. NULL)(2 := 8, 4 := 6), val := (\<lambda>a. a),
                               str := (\<lambda>a. ''a'')(8 := ''b'')\<rparr>) 2)
          (text_of (empty_heap\<lparr>nxt := (\<lambda>a. NULL)(2 := 8, 4 := 6), val := (\<lambda>a. a),
                               str := (\<lambda>a. ''a'')(8 := ''b'')\<rparr>) 4) = 0 \<and>
   ascending (texts (empty_heap\<lparr>nxt := (\<lambda>a. NULL)(2 := 8, 4 := 6), val := (\<lambda>a. a),
                                 str := (\<lambda>a. ''a'')(8 := ''b'')\<rparr>) [2, 8]) \<and>
   ascending (texts (empty_heap\<lparr>nxt := (\<lambda>a. NULL)(2 := 8, 4 := 6), val := (\<lambda>a. a),
                                 str := (\<lambda>a. ''a'')(8 := ''b'')\<rparr>) [4, 6]) \<and>
   texts (empty_heap\<lparr>nxt := (\<lambda>a. NULL)(2 := 8, 4 := 6), val := (\<lambda>a. a),
                      str := (\<lambda>a. ''a'')(8 := ''b'')\<rparr>) [2, 8, 4, 6] = [''a'', ''b'', ''a'', ''a''] \<and>
   (\<exists>h'. mergeTwoLists 2 4 (empty_heap\<lparr>nxt := (\<lambda>a. NULL)(2 := 8, 4 := 6), val := (\<lambda>a. a),
                                         str := (\<lambda>a. ''a'')(8 := ''b'')\<rparr>) = Some (h', 4) \<and>
      chain (nxt h') 4 [4, 6, 2, 8] \<and>
      (\<exists>us vs ws. [4, 6, 2, 8 :: addr] = us @ 6 # vs @ 2 # ws)) \<and>
   merge_list (text_of empty_heap) [2 :: addr] [4, 6] = [4, 6, 2] \<and>
   ring (q_build 1 [(2, 3, ''a''), (4, 5, ''b''), (6, 7, ''a'')]) 1 [2, 4, 6] \<and>
   texts (q_build 1 [(2, 3, ''a''), (4, 5, ''b''), (6, 7, ''a'')]) [2, 4, 6] =
     [''a'', ''b'', ''a''] \<and>
   strcmp (text_of (q_build 1 [(2, 3, ''a''), (4, 5, ''b''), (6, 7, ''a'')]) 2)
          (text_of (q_build 1 [(2, 3, ''a''), (4, 5, ''b''), (6, 7, ''a'')]) 6) = 0 \<and>
   (\<exists>h'. q_sort 1 (q_build 1 [(2, 3, ''a''), (4, 5, ''b''), (6, 7, ''a'')]) = Some h' \<and>
      ring h' 1 [6, 2, 4] \<and>
      (\<exists>us vs ws. [6, 2, 4 :: addr] = us @ 6 # vs @ 2 # ws))"
proof -
  let ?E = "empty_heap\<lparr>nxt := (\<lambda>a. NULL)(2 := 8, 4 := 6), val := (\<lambda>a. a),
                        str := (\<lambda>a. ''a'')(8 := ''b'')\<rparr>"
  let ?H = "q_build 1 [(2, 3, ''a''), (4, 5, ''b''), (6, 7, ''a'')]"
  have c: "chain (nxt ?E) 2 [2, 8]" "chain (nxt ?E) 4 [4, 6]" "distinct ([2, 8] @ [4, 6 :: addr])"
    by simp_all
  have te: "text_of ?E 2 = ''a''" "text_of ?E 8 = ''b''" "text_of ?E 4 = ''a''"
    "text_of ?E 6 = ''a''"
    by (simp_all add: text_of_def)
  then have txe: "texts ?E [2, 8, 4, 6] = [''a'', ''b'', ''a'', ''a'']"
    by (simp add: texts_def)
  have pre: "chain (nxt ?E) 2 [2, 8] \<and> chain (nxt ?E) 4 [4, 6] \<and> distinct ([2, 8] @ [4, 6 :: addr])"
    using c by simp
  from mergeTwoLists_tie_break [of ?E 2 "[2, 8]" 4 "[4, 6]", THEN conjunct1, THEN mp, OF pre]
  obtain h' first zs where m: "mergeTwoLists 2 4 ?E = Some (h', first)" "chain (nxt h') first zs"
    "\<forall>a as b bs. [2, 8] = a # as \<and> [4, 6] = b # bs \<and>
        strcmp (text_of ?E a) (text_of ?E b) = 0 \<longrightarrow>
      first = b \<and> zs = b # merge_list (text_of ?E) (a # as) bs"
    "ascending (texts ?E [2, 8]) \<and> ascending (texts ?E [4, 6]) \<longrightarrow>
       (\<forall>x\<in>set [2, 8]. \<forall>y\<in>set [4, 6]. strcmp (text_of ?E x) (text_of ?E y) = 0 \<longrightarrow>
          (\<exists>us vs ws. zs = us @ y # vs @ x # ws))"
    by blast
  have tie: "[2, 8] = 2 # [8] \<and> [4, 6] = 4 # [6 :: addr] \<and>
      strcmp (text_of ?E 2) (text_of ?E 4) = 0"
    by (simp add: te)
  with m(3) have "first = 4 \<and> zs = 4 # merge_list (text_of ?E) (2 # [8]) [6]"
    by blast
  then have fz: "first = 4" "zs = [4, 6, 2, 8]"
    by (simp_all add: te)
  have asc: "ascending (texts ?E [2, 8]) \<and> ascending (texts ?E [4, 6])"
    by (simp add: texts_def te)
  with m(4) have "\<exists>us vs ws. zs = us @ 6 # vs @ 2 # ws"
    by (simp add: te)
  then have oe: "\<exists>us vs ws. [4, 6, 2, 8 :: addr] = us @ 6 # vs @ 2 # ws"
    by (simp only: fz)
  have e: "merge_list (text_of empty_heap) [2 :: addr] [4, 6] = [4, 6, 2]"
    using mergeTwoLists_tie_break [of empty_heap 2 "[]" 4 "[6]", THEN conjunct2, THEN conjunct1]
      mergeTwoLists_tie_break [of empty_heap 2 "[]" 6 "[]", THEN conjunct2, THEN conjunct1]
    by (simp add: text_of_def empty_heap_def)
  have r: "ring ?H 1 [2, 4, 6]" and t: "texts ?H [2, 4, 6] = [''a'', ''b'', ''a'']"
    using q_build_queue(1,2) [of 1 "[(2, 3, ''a''), (4, 5, ''b''), (6, 7, ''a'')]"]
    by (simp_all add: queue_def)
  have tv: "text_of ?H 2 = ''a''" "text_of ?H 4 = ''b''" "text_of ?H 6 = ''a''"
    using t by (simp_all add: texts_def)
  from mergeTwoLists_tie_break [of ?H _ _ _ _ _ _ _ _ 1 "[2, 4, 6]", THEN conjunct2,
      THEN conjunct2, THEN mp, OF r]
  obtain h2 ys where s: "q_sort 1 ?H = Some h2" "ring h2 1 ys"
    "ys = msort_list (text_of ?H) [2, 4, 6]"
    "\<forall>us x vs y ws. [2, 4, 6] = us @ x # vs @ y # ws \<and>
         strcmp (text_of ?H x) (text_of ?H y) = 0 \<longrightarrow>
       (\<exists>us' vs' ws'. ys = us' @ y # vs' @ x # ws')"
    by blast
  have tie2: "[2, 4, 6] = [] @ 2 # [4] @ 6 # ([] :: addr list) \<and>
      strcmp (text_of ?H 2) (text_of ?H 6) = 0"
    by (simp add: tv)
  with s(4) have "\<exists>us' vs' ws'. ys = us' @ 6 # vs' @ 2 # ws'"
    by blast
  moreover have ys: "ys = [6, 2, 4]"
    using s(3) by (simp add: tv)
  ultimately have oh: "\<exists>us vs ws. [6, 2, 4 :: addr] = us @ 6 # vs @ 2 # ws"
    by (simp only:)
  have 1: "\<exists>h'. mergeTwoLists 2 4 ?E = Some (h', 4) \<and> chain (nxt h') 4 [4, 6, 2, 8] \<and>
      (\<exists>us vs ws. [4, 6, 2, 8 :: addr] = us @ 6 # vs @ 2 # ws)"
    using m(1,2) fz oe by blast
  have 2: "\<exists>h'. q_sort 1 ?H = Some h' \<and> ring h' 1 [6, 2, 4] \<and>
      (\<exists>us vs ws. [6, 2, 4 :: addr] = us @ 6 # vs @ 2 # ws)"
    using s(1,2) ys oh by blast
  show ?thesis
    by (intro conjI c tie [THEN conjunct2, THEN conjunct2] asc [THEN conjunct1]
        asc [THEN conjunct2] txe 1 e r t tie2 [THEN conjunct2] 2)
qed

text \<open>
  Claim C7: \<open>q_reverse\<close> is an involution.  For a queue of any size, one application
  leaves the nodes in exactly the reversed traversal order and allocates or frees
  nothing (the allocated blocks, the value pointers and the strings are untouched);
  a second application restores the original traversal order.  On a null queue it
  does nothing.
\<close>

theorem q_reverse_involution:
  "q_reverse NULL h = Some h \<and>
   (ring h head xs \<longrightarrow>
     (\<exists>h1 h2. q_reverse head h = Some h1 \<and> ring h1 head (rev xs) \<and>
        live h1 = live h \<and> val h1 = val h \<and> str h1 = str h \<and>
        q_reverse head h1 = Some h2 \<and> ring h2 head xs \<and>
        live h2 = live h \<and> val h2 = val h \<and> str h2 = str h))"
proof -
  have "\<exists>h1 h2. q_reverse head h = Some h1 \<and> ring h1 head (rev xs) \<and>
        live h1 = live h \<and> val h1 = val h \<and> str h1 = str h \<and>
        q_reverse head h1 = Some h2 \<and> ring h2 head xs \<and>
        live h2 = live h \<and> val h2 = val h \<and> str h2 = str h"
    if r: "ring h head xs"
  proof -
    from q_reverse_ring [OF r] obtain h1 where h1: "q_reverse head h = Some h1"
      "ring h1 head (rev xs)" "val h1 = val h" "str h1 = str h" "live h1 = live h"
      by blast
    from q_reverse_ring [OF h1(2)] obtain h2 where h2: "q_reverse head h1 = Some h2"
      "ring h2 head (rev (rev xs))" "val h2 = val h1" "str h2 = str h1" "live h2 = live h1"
      by blast
    show ?thesis
      using h1 h2 by simp
  qed
  then show ?thesis
    by (simp add: q_reverse_def)
qed

theorem q_reverse_involution_witness:
  "ring (q_build 1 [(2, 3, ''a''), (4, 5, ''b''), (6, 7, ''c'')]) 1 [2, 4, 6] \<and>
   (\<exists>h1 h2. q_reverse 1 (q_build 1 [(2, 3, ''a''), (4, 5, ''b''), (6, 7, ''c'')]) = Some h1 \<and>
      ring h1 1 [6, 4, 2] \<and> q_texts 1 h1 = Some [''c'', ''b'', ''a''] \<and>
      q_reverse 1 h1 = Some h2 \<and> ring h2 1 [2, 4, 6] \<and>
      q_texts 1 h2 = Some [''a'', ''b'', ''c''])"
proof -
  let ?H = "q_build 1 [(2, 3, ''a''), (4, 5, ''b''), (6, 7, ''c'')]"
  have r: "ring ?H 1 [2, 4, 6]" and t: "texts ?H [2, 4, 6] = [''a'', ''b'', ''c'']"
    using q_build_queue(1,2) [of 1 "[(2, 3, ''a''), (4, 5, ''b''), (6, 7, ''c'')]"]
    by (simp_all add: queue_def)
  from q_reverse_involution [of ?H 1 "[2, 4, 6]"] r
  obtain h1 h2 where h: "q_reverse 1 ?H = Some h1" "ring h1 1 [6, 4, 2]"
    "val h1 = val ?H" "str h1 = str ?H" "q_reverse 1 h1 = Some h2" "ring h2 1 [2, 4, 6]"
    "val h2 = val ?H" "str h2 = str ?H"
    by auto
  have "texts h1 [6, 4, 2] = [''c'', ''b'', ''a'']" "texts h2 [2, 4, 6] = [''a'', ''b'', ''c'']"
    using t h(3,4,7,8) by (simp_all add: texts_def text_of_def)
  then show ?thesis
    using r h q_texts_ring [OF h(2)] q_texts_ring [OF h(6)] by auto
qed

text \<open>
  Claim C8: \<open>q_insert_head\<close> and \<open>q_insert_tail\<close> return \<open>false\<close> when the queue is
  null, when the allocation of the element fails, and when the duplication of the
  string fails.  In the last case the element allocated before is released, so the
  set of allocated blocks is what it was, and the queue is unchanged: same ring, same
  links, same texts.
\<close>

theorem q_insert_failure:
  "q_insert_head NULL s r_node r_str h = Inr (h, False) \<and>
   q_insert_tail NULL s r_node r_str h = Inr (h, False) \<and>
   q_insert_head head s None r_str h = Inr (h, False) \<and>
   q_insert_tail head s None r_str h = Inr (h, False) \<and>
   (queue h head xs \<and> q \<noteq> NULL \<and> q \<notin> live h \<longrightarrow>
     (\<exists>h'. q_insert_head head (Some cs) (Some q) None h = Inr (h', False) \<and>
           q_insert_tail head (Some cs) (Some q) None h = Inr (h', False) \<and>
           queue h' head xs \<and> texts h' xs = texts h xs \<and> live h' = live h \<and>
           nxt h' = nxt h \<and> prv h' = prv h \<and> str h' = str h \<and>
           (\<forall>a\<in>live h. val h' a = val h a)))"
proof -
  have "\<exists>h'. q_insert_head head (Some cs) (Some q) None h = Inr (h', False) \<and>
           q_insert_tail head (Some cs) (Some q) None h = Inr (h', False) \<and>
           queue h' head xs \<and> texts h' xs = texts h xs \<and> live h' = live h \<and>
           nxt h' = nxt h \<and> prv h' = prv h \<and> str h' = str h \<and>
           (\<forall>a\<in>live h. val h' a = val h a)"
    if q: "queue h head xs" "q \<noteq> NULL" "q \<notin> live h"
  proof -
    have r: "ring h head xs" and o: "owns h head xs"
      using q(1) by (simp_all add: queue_def)
    from q_insert_no_string [of head q h cs] ring_head [OF r] q(2,3)
    obtain h' where h': "q_insert_head head (Some cs) (Some q) None h = Inr (h', False)"
      "q_insert_tail head (Some cs) (Some q) None h = Inr (h', False)"
      "nxt h' = nxt h" "prv h' = prv h" "str h' = str h" "live h' = live h"
      "\<forall>a. a \<noteq> q \<longrightarrow> val h' a = val h a"
      by blast
    have v: "\<forall>a\<in>live h. val h' a = val h a"
      using h'(7) q(3) by auto
    then have vx: "\<forall>x\<in>set xs. val h' x = val h x"
      using ownsD(2) [OF o] by blast
    have "queue h' head xs"
      using queue_frame [OF q(1) h'(3,4,6) vx] .
    moreover have "texts h' xs = texts h xs"
      using vx h'(5) by (simp add: texts_def text_of_def)
    ultimately show ?thesis
      using h' v by blast
  qed
  then show ?thesis
    by (simp add: q_insert_null_queue q_insert_no_node)
qed

theorem q_insert_failure_witness:
  "queue (q_build 1 [(2, 3, ''a''), (4, 5, ''b'')]) 1 [2, 4] \<and> (6 :: addr) \<noteq> NULL \<and>
   6 \<notin> live (q_build 1 [(2, 3, ''a''), (4, 5, ''b'')]) \<and>
   (\<exists>h'. q_insert_head 1 (Some ''c'') (Some 6) None (q_build 1 [(2, 3, ''a''), (4, 5, ''b'')]) =
           Inr (h', False) \<and>
         q_insert_tail 1 (Some ''c'') (Some 6) None (q_build 1 [(2, 3, ''a''), (4, 5, ''b'')]) =
           Inr (h', False) \<and>
         queue h' 1 [2, 4] \<and> texts h' [2, 4] = [''a'', ''b''] \<and>
         live h' = {1, 2, 4, 3, 5})"
proof -
  let ?H = "q_build 1 [(2, 3, ''a''), (4, 5, ''b'')]"
  have q: "queue ?H 1 [2, 4]" and t: "texts ?H [2, 4] = [''a'', ''b'']"
    and l: "live ?H = {1, 2, 4, 3, 5}"
    using q_build_queue [of 1 "[(2, 3, ''a''), (4, 5, ''b'')]"] by simp_all
  then have "queue ?H 1 [2, 4] \<and> (6 :: addr) \<noteq> NULL \<and> 6 \<notin> live ?H"
    by simp
  with q_insert_failure [of "Some ''c''" "Some 6" None ?H 1 "[2, 4]" 6 "''c''"] t l
  show ?thesis
    by auto
qed

text \<open>
  Claim C9: the element unlinked by \<open>q_remove_head\<close>, \<open>q_remove_tail\<close> and
  \<open>q_delete_mid\<close> is left self-linked: its \<open>next\<close> and its \<open>prev\<close> point to the
  node itself.  For the two remove operations that is the state of the element they
  return; \<open>q_delete_mid\<close> releases the element after having unlinked it that way.
\<close>

theorem unlinked_node_self_linked:
  "ring h head xs \<and> xs \<noteq> [] \<longrightarrow>
     (\<exists>h'. q_remove_head head None bufsize h = Inr (h', hd xs, None) \<and>
        nxt h' (hd xs) = hd xs \<and> prv h' (hd xs) = hd xs) \<and>
     (\<exists>h'. q_remove_tail head None bufsize h = Inr (h', last xs, None) \<and>
        nxt h' (last xs) = last xs \<and> prv h' (last xs) = last xs) \<and>
     (\<forall>h' e sp'. q_remove_head head sp bufsize h = Inr (h', e, sp') \<or>
                 q_remove_tail head sp bufsize h = Inr (h', e, sp') \<longrightarrow>
        e \<noteq> NULL \<and> nxt h' e = e \<and> prv h' e = e) \<and>
     (\<exists>h1 e. q_delete_mid_unlink head h = Some (h1, e) \<and> e = xs ! (length xs div 2) \<and>
        nxt h1 e = e \<and> prv h1 e = e \<and>
        q_delete_mid head h = Some (q_release_element e h1, True))"
proof (intro impI, elim conjE)
  assume r: "ring h head xs" and ne: "xs \<noteq> []"
  note rh = q_remove_head_ring(1) [OF r ne]
  note rt = q_remove_tail_ring(1) [OF r ne]
  have nn: "hd xs \<noteq> NULL" "last xs \<noteq> NULL"
    using r ne hd_in_set last_in_set unfolding ring_def by (metis list.set_intros(2))+
  have 1: "\<exists>h'. q_remove_head head None bufsize h = Inr (h', hd xs, None) \<and>
        nxt h' (hd xs) = hd xs \<and> prv h' (hd xs) = hd xs"
    using rh [of None bufsize] list_del_init_self [of "hd xs" h] by simp
  have 2: "\<exists>h'. q_remove_tail head None bufsize h = Inr (h', last xs, None) \<and>
        nxt h' (last xs) = last xs \<and> prv h' (last xs) = last xs"
    using rt [of None bufsize] list_del_init_self [of "last xs" h] by simp
  have 3: "\<forall>h' e sp'. q_remove_head head sp bufsize h = Inr (h', e, sp') \<or>
                 q_remove_tail head sp bufsize h = Inr (h', e, sp') \<longrightarrow>
        e \<noteq> NULL \<and> nxt h' e = e \<and> prv h' e = e"
    using rh [of sp bufsize] rt [of sp bufsize] nn
      list_del_init_self [of "hd xs" h] list_del_init_self [of "last xs" h]
    by (auto split: option.splits sum.splits)
  have 4: "\<exists>h1 e. q_delete_mid_unlink head h = Some (h1, e) \<and> e = xs ! (length xs div 2) \<and>
        nxt h1 e = e \<and> prv h1 e = e \<and>
        q_delete_mid head h = Some (q_release_element e h1, True)"
    using q_delete_mid_unlink_ring [OF r ne] ring_head [OF r] ne
      list_del_init_self [of "xs ! (length xs div 2)" h]
    by (simp add: q_delete_mid_def)
  show "(\<exists>h'. q_remove_head head None bufsize h = Inr (h', hd xs, None) \<and>
        nxt h' (hd xs) = hd xs \<and> prv h' (hd xs) = hd xs) \<and>
     (\<exists>h'. q_remove_tail head None bufsize h = Inr (h', last xs, None) \<and>
        nxt h' (last xs) = last xs \<and> prv h' (last xs) = last xs) \<and>
     (\<forall>h' e sp'. q_remove_head head sp bufsize h = Inr (h', e, sp') \<or>
                 q_remove_tail head sp bufsize h = Inr (h', e, sp') \<longrightarrow>
        e \<noteq> NULL \<and> nxt h' e = e \<and> prv h' e = e) \<and>
     (\<exists>h1 e. q_delete_mid_unlink head h = Some (h1, e) \<and> e = xs ! (length xs div 2) \<and>
        nxt h1 e = e \<and> prv h1 e = e \<and>
        q_delete_mid head h = Some (q_release_element e h1, True))"
    using 1 2 3 4 by blast
qed

theorem unlinked_node_self_linked_witness:
  "ring (q_build 1 [(2, 3, ''a''), (4, 5, ''b''), (6, 7, ''c'')]) 1 [2, 4, 6] \<and>
   [2, 4, 6 :: addr] \<noteq> [] \<and>
   (\<exists>h'. q_remove_head 1 None 0 (q_build 1 [(2, 3, ''a''), (4, 5, ''b''), (6, 7, ''c'')]) =
           Inr (h', 2, None) \<and> nxt h' 2 = 2 \<and> prv h' 2 = 2) \<and>
   (\<exists>h'. q_remove_tail 1 None 0 (q_build 1 [(2, 3, ''a''), (4, 5, ''b''), (6, 7, ''c'')]) =
           Inr (h', 6, None) \<and> nxt h' 6 = 6 \<and> prv h' 6 = 6) \<and>
   (\<exists>h1. q_delete_mid_unlink 1 (q_build 1 [(2, 3, ''a''), (4, 5, ''b''), (6, 7, ''c'')]) =
           Some (h1, 4) \<and> nxt h1 4 = 4 \<and> prv h1 4 = 4)"
proof -
  let ?H = "q_build 1 [(2, 3, ''a''), (4, 5, ''b''), (6, 7, ''c'')]"
  have r: "ring ?H 1 [2, 4, 6] \<and> [2, 4, 6 :: addr] \<noteq> []"
    using q_build_queue(1) [of 1 "[(2, 3, ''a''), (4, 5, ''b''), (6, 7, ''c'')]"]
    by (simp add: queue_def)
  from unlinked_node_self_linked [of ?H 1 "[2, 4, 6]" 0 None, THEN mp, OF r]
  have "(\<exists>h'. q_remove_head 1 None 0 ?H = Inr (h', hd [2, 4, 6], None) \<and>
        nxt h' (hd [2, 4, 6]) = hd [2, 4, 6] \<and> prv h' (hd [2, 4, 6]) = hd [2, 4, 6])"
    and "(\<exists>h'. q_remove_tail 1 None 0 ?H = Inr (h', last [2, 4, 6], None) \<and>
        nxt h' (last [2, 4, 6]) = last [2, 4, 6] \<and> prv h' (last [2, 4, 6]) = last [2, 4, 6])"
    and "(\<exists>h1 e. q_delete_mid_unlink 1 ?H = Some (h1, e) \<and>
        e = [2, 4, 6] ! (length [2, 4, 6 :: addr] div 2) \<and> nxt h1 e = e \<and> prv h1 e = e \<and>
        q_delete_mid 1 ?H = Some (q_release_element e h1, True))"
    by blast+
  then show ?thesis
    using r by auto
qed

text \<open>
  Claim C10: \<open>q_insert_head\<close> and \<open>q_insert_tail\<close> pass the text to \<open>strdup\<close>
  without a null check.  With a non-null queue and a successful allocation of the
  element, a null text is dereferenced by \<open>strdup\<close>; the only \<open>false\<close> returns
  with a null text are those of a null queue and of a failed allocation of the
  element, so a null text is neither detected nor reported.
\<close>

theorem q_insert_null_text_unchecked:
  "(head \<noteq> NULL \<and> q_node \<noteq> NULL \<longrightarrow>
      q_insert_head head None (Some q_node) r_str h = Inl NullDeref \<and>
      q_insert_tail head None (Some q_node) r_str h = Inl NullDeref) \<and>
   (q_insert_head head None r_node r_str h = Inr res \<or>
    q_insert_tail head None r_node r_str h = Inr res \<longrightarrow>
      head = NULL \<or> r_node = None \<or> r_node = Some NULL)"
  by (auto simp: q_insert_head_def q_insert_tail_def malloc_def strdup_def
      split: option.splits)

theorem q_insert_null_text_unchecked_witness:
  "(1 :: addr) \<noteq> NULL \<and> (2 :: addr) \<noteq> NULL \<and>
   q_insert_head 1 None (Some 2) (Some 3) empty_heap = Inl NullDeref \<and>
   q_insert_tail 1 None (Some 2) (Some 3) empty_heap = Inl NullDeref \<and>
   q_insert_head NULL None (Some 2) (Some 3) empty_heap = Inr (empty_heap, False)"
  using q_insert_null_text_unchecked [of 1 2 "Some 3" empty_heap]
    q_insert_null_text_unchecked [of NULL 2 "Some 3" empty_heap "Some 2" "(empty_heap, False)"]
  by (simp add: q_insert_null_queue)

end
